theory Spec2Isabelle
  imports Complex_Main "HOL-Library.Word" "HOL-Library.Sublist"
begin

section \<open>Protocol constants (src/protocol/constants.ts, src/settings.ts)\<close>

text \<open>
  A \<open>Buffer\<close> is a sequence of bytes. \<open>Buffer.from\<close> of an array of numbers keeps the
  low eight bits of every element, which is what \<open>word_of_int\<close> does.
\<close>

type_synonym byte = "8 word"
type_synonym Buffer = "byte list"

text \<open>The enum \<open>ResponseCode\<close>; \<open>ResponseCode_value\<close> gives the number of each member.\<close>

datatype ResponseCode =
    Volume | CenterVolume | Treble | Bass | Mute | QuietMode | Balance | Layout
  | Source | Power | Preset | Covering | ArmType | Subwoofer | RearVolume

fun ResponseCode_value :: "ResponseCode \<Rightarrow> int" where
  "ResponseCode_value Volume = 0x01"
| "ResponseCode_value CenterVolume = 0x02"
| "ResponseCode_value Treble = 0x03"
| "ResponseCode_value Bass = 0x04"
| "ResponseCode_value Mute = 0x05"
| "ResponseCode_value QuietMode = 0x06"
| "ResponseCode_value Balance = 0x07"
| "ResponseCode_value Layout = 0x08"
| "ResponseCode_value Source = 0x09"
| "ResponseCode_value Power = 0x0a"
| "ResponseCode_value Preset = 0x0b"
| "ResponseCode_value Covering = 0x0c"
| "ResponseCode_value ArmType = 0x0d"
| "ResponseCode_value Subwoofer = 0x0e"
| "ResponseCode_value RearVolume = 0x0f"

text \<open>
  At run time a \<open>ResponseCode\<close> is a plain number; a \<open>switch\<close> over it selects the member
  with that number, or the \<open>default\<close> branch when there is none.
\<close>

definition ResponseCode_of :: "int \<Rightarrow> ResponseCode option" where
  "ResponseCode_of n =
     (if n = 0x01 then Some Volume
      else if n = 0x02 then Some CenterVolume
      else if n = 0x03 then Some Treble
      else if n = 0x04 then Some Bass
      else if n = 0x05 then Some Mute
      else if n = 0x06 then Some QuietMode
      else if n = 0x07 then Some Balance
      else if n = 0x08 then Some Layout
      else if n = 0x09 then Some Source
      else if n = 0x0a then Some Power
      else if n = 0x0b then Some Preset
      else if n = 0x0c then Some Covering
      else if n = 0x0d then Some ArmType
      else if n = 0x0e then Some Subwoofer
      else if n = 0x0f then Some RearVolume
      else None)"

definition CharUUID_UpStream :: string where
  "CharUUID_UpStream = ''657863656c706f696e742e636f6d0001''"

definition CharUUID_DeviceInfo :: string where
  "CharUUID_DeviceInfo = ''657863656c706f696e742e636f6d0002''"

definition CharUUID_EqControl :: string where
  "CharUUID_EqControl = ''657863656c706f696e742e636f6d0003''"

definition CharUUID_AudioPath :: string where
  "CharUUID_AudioPath = ''657863656c706f696e742e636f6d0004''"

definition CharUUID_PlayerControl :: string where
  "CharUUID_PlayerControl = ''657863656c706f696e742e636f6d0005''"

definition CharUUID_Source :: string where
  "CharUUID_Source = ''657863656c706f696e742e636f6d0007''"

definition MAX_VOLUME :: int where
  "MAX_VOLUME = 36"


section \<open>Status decoding and the state store (src/protocol/responses.ts)\<close>

text \<open>
  \<open>DeviceState\<close>. The enum-typed fields \<open>source\<close> and \<open>preset\<close> are numbers at run time
  (the default state stores \<open>-1\<close> in them), so they are integers here.
\<close>

record DeviceState =
  power :: bool
  volume :: int
  mute :: bool
  source :: int
  preset :: int
  quietMode :: bool
  bass :: int
  treble :: int
  centerVolume :: int
  rearVolume :: int
  balance :: int
  subwooferConnected :: bool

definition createDefaultState :: DeviceState where
  "createDefaultState =
     \<lparr> power = False, volume = -1, mute = False, source = -1, preset = -1,
       quietMode = False, bass = -1, treble = -1, centerVolume = -1,
       rearVolume = -1, balance = -1, subwooferConnected = False \<rparr>"

record ParsedResponse =
  code :: int
  val :: int

text \<open>
  \<open>parseNotification\<close>: \<open>None\<close> is the source's \<open>undefined\<close>. Every index read is inside
  the buffer at the place it is read (\<open>length data \<ge> 5\<close> before offsets 2 to 4,
  \<open>length data \<ge> 4\<close> before the last two bytes).
\<close>

definition parseNotification :: "Buffer \<Rightarrow> ParsedResponse option" where
  "parseNotification data =
     (if length data < 4 then None
      else if length data \<ge> 5 \<and> data ! 2 = 0xAA \<and> data ! 3 = 0x01 \<and> data ! 4 = 0x03
        then None
      else
        let c = uint (data ! (length data - 2));
            v = uint (data ! (length data - 1))
        in if c < ResponseCode_value Volume \<or> c > ResponseCode_value RearVolume
           then None
           else Some \<lparr> code = c, val = v \<rparr>)"

definition inRange :: "int \<Rightarrow> int \<Rightarrow> int \<Rightarrow> bool" where
  "inRange v lo hi \<longleftrightarrow> v \<ge> lo \<and> v \<le> hi"

text \<open>
  \<open>applyResponse\<close> returns \<open>true\<close>, \<open>false\<close> or the sentinel \<open>OUT_OF_RANGE\<close>, and mutates
  the state it is given; the model returns the outcome together with the state afterwards.
  \<open>Changed\<close> is \<open>true\<close>, \<open>Unchanged\<close> is \<open>false\<close>.
\<close>

datatype ApplyResult = Changed | Unchanged | OUT_OF_RANGE

definition applyResponse :: "DeviceState \<Rightarrow> ParsedResponse \<Rightarrow> ApplyResult \<times> DeviceState" where
  "applyResponse state response =
     (let v = val response in
      case ResponseCode_of (code response) of
        Some Volume \<Rightarrow>
          if \<not> inRange v 0 36 then (OUT_OF_RANGE, state)
          else if volume state = v then (Unchanged, state)
          else (Changed, state\<lparr>volume := v\<rparr>)
      | Some CenterVolume \<Rightarrow>
          if \<not> inRange v 0 30 then (OUT_OF_RANGE, state)
          else if centerVolume state = v then (Unchanged, state)
          else (Changed, state\<lparr>centerVolume := v\<rparr>)
      | Some Treble \<Rightarrow>
          if \<not> inRange v 0 20 then (OUT_OF_RANGE, state)
          else if treble state = v then (Unchanged, state)
          else (Changed, state\<lparr>treble := v\<rparr>)
      | Some Bass \<Rightarrow>
          if \<not> inRange v 0 20 then (OUT_OF_RANGE, state)
          else if bass state = v then (Unchanged, state)
          else (Changed, state\<lparr>bass := v\<rparr>)
      | Some Mute \<Rightarrow>
          if \<not> inRange v 0 1 then (OUT_OF_RANGE, state)
          else let muted = (v = 1) in
            if mute state = muted then (Unchanged, state)
            else (Changed, state\<lparr>mute := muted\<rparr>)
      | Some QuietMode \<Rightarrow>
          if \<not> inRange v 0 1 then (OUT_OF_RANGE, state)
          else let on = (v = 1) in
            if quietMode state = on then (Unchanged, state)
            else (Changed, state\<lparr>quietMode := on\<rparr>)
      | Some Balance \<Rightarrow>
          if \<not> inRange v 0 100 then (OUT_OF_RANGE, state)
          else if balance state = v then (Unchanged, state)
          else (Changed, state\<lparr>balance := v\<rparr>)
      | Some Source \<Rightarrow>
          if \<not> inRange v 0 3 then (OUT_OF_RANGE, state)
          else if source state = v then (Unchanged, state)
          else (Changed, state\<lparr>source := v\<rparr>)
      | Some Power \<Rightarrow>
          if \<not> inRange v 0 1 then (OUT_OF_RANGE, state)
          else let on = (v = 0) in
            if power state = on then (Unchanged, state)
            else (Changed, state\<lparr>power := on\<rparr>)
      | Some Preset \<Rightarrow>
          if \<not> inRange v 0 3 then (OUT_OF_RANGE, state)
          else if preset state = v then (Unchanged, state)
          else (Changed, state\<lparr>preset := v\<rparr>)
      | Some Subwoofer \<Rightarrow>
          if \<not> inRange v 0 1 then (OUT_OF_RANGE, state)
          else let connected = (v = 1) in
            if subwooferConnected state = connected then (Unchanged, state)
            else (Changed, state\<lparr>subwooferConnected := connected\<rparr>)
      | Some RearVolume \<Rightarrow>
          if \<not> inRange v 0 30 then (OUT_OF_RANGE, state)
          else if rearVolume state = v then (Unchanged, state)
          else (Changed, state\<lparr>rearVolume := v\<rparr>)
      | _ \<Rightarrow> (Unchanged, state))"

text \<open>
  The range that \<open>applyResponse\<close> checks for each code; the codes it has no case for
  (\<open>Layout\<close>, \<open>Covering\<close>, \<open>ArmType\<close>) declare none.
\<close>

fun declaredRange :: "ResponseCode \<Rightarrow> (int \<times> int) option" where
  "declaredRange Volume = Some (0, 36)"
| "declaredRange CenterVolume = Some (0, 30)"
| "declaredRange Treble = Some (0, 20)"
| "declaredRange Bass = Some (0, 20)"
| "declaredRange Mute = Some (0, 1)"
| "declaredRange QuietMode = Some (0, 1)"
| "declaredRange Balance = Some (0, 100)"
| "declaredRange Source = Some (0, 3)"
| "declaredRange Power = Some (0, 1)"
| "declaredRange Preset = Some (0, 3)"
| "declaredRange Subwoofer = Some (0, 1)"
| "declaredRange RearVolume = Some (0, 30)"
| "declaredRange Layout = None"
| "declaredRange Covering = None"
| "declaredRange ArmType = None"

definition status :: "ResponseCode \<Rightarrow> int \<Rightarrow> ParsedResponse" where
  "status c v = \<lparr> code = ResponseCode_value c, val = v \<rparr>"


section \<open>Command encoders (protocol/commands.ts)\<close>

record BleCommand =
  characteristicUuid :: string
  data :: Buffer

definition formatA :: "int \<Rightarrow> int \<Rightarrow> int \<Rightarrow> Buffer" where
  "formatA cmdId subCmdId v = map word_of_int [0xAA, cmdId, subCmdId, 0x01, v]"

definition formatB :: "int \<Rightarrow> int \<Rightarrow> Buffer" where
  "formatB cmdId v = map word_of_int [0xAA, cmdId, v, 0x00]"

definition eqCommand :: "int \<Rightarrow> int \<Rightarrow> BleCommand" where
  "eqCommand subCmdId v =
     \<lparr> characteristicUuid = CharUUID_EqControl, data = formatA 0x03 subCmdId v \<rparr>"

definition setVolume :: "int \<Rightarrow> BleCommand" where
  "setVolume v = eqCommand 0x02 (max 0 (min 36 v))"

definition setBass :: "int \<Rightarrow> BleCommand" where
  "setBass b = eqCommand 0x01 (max 0 (min 20 b))"

definition setTreble :: "int \<Rightarrow> BleCommand" where
  "setTreble t = eqCommand 0x00 (max 0 (min 20 t))"

definition setCenterVolume :: "int \<Rightarrow> BleCommand" where
  "setCenterVolume c = eqCommand 0x03 (max 0 (min 30 c))"

definition setRearVolume :: "int \<Rightarrow> BleCommand" where
  "setRearVolume r = eqCommand 0x0A (max 0 (min 30 r))"

definition setMute :: "bool \<Rightarrow> BleCommand" where
  "setMute muted = eqCommand 0x09 (if muted then 1 else 0)"

definition setQuietMode :: "bool \<Rightarrow> BleCommand" where
  "setQuietMode on = eqCommand 0x04 (if on then 1 else 0)"

definition setBalance :: "int \<Rightarrow> BleCommand" where
  "setBalance b =
     \<lparr> characteristicUuid = CharUUID_AudioPath,
       data = formatA 0x04 0x00 (max 0 (min 100 b)) \<rparr>"

definition setPower :: "bool \<Rightarrow> BleCommand" where
  "setPower on =
     \<lparr> characteristicUuid = CharUUID_AudioPath,
       data = formatA 0x04 0x01 (if on then 1 else 0) \<rparr>"

definition setPreset :: "int \<Rightarrow> BleCommand" where
  "setPreset p = \<lparr> characteristicUuid = CharUUID_EqControl, data = formatB 0x03 p \<rparr>"

definition setSource :: "int \<Rightarrow> BleCommand" where
  "setSource s = \<lparr> characteristicUuid = CharUUID_Source, data = formatB 0x07 s \<rparr>"

definition requestDeviceInfo :: BleCommand where
  "requestDeviceInfo = \<lparr> characteristicUuid = CharUUID_DeviceInfo, data = formatB 0x01 0x01 \<rparr>"

definition requestVersionInfo :: BleCommand where
  "requestVersionInfo =
     \<lparr> characteristicUuid = CharUUID_DeviceInfo, data = map word_of_int [0xAA, 0x01, 0x01, 0x01] \<rparr>"

definition setPlayPause :: "int \<Rightarrow> BleCommand" where
  "setPlayPause v = \<lparr> characteristicUuid = CharUUID_PlayerControl, data = formatA 0x05 0x00 v \<rparr>"

definition setSkip :: "int \<Rightarrow> BleCommand" where
  "setSkip v = \<lparr> characteristicUuid = CharUUID_PlayerControl, data = formatA 0x05 0x01 v \<rparr>"

text \<open>The value byte of a shape-A frame is its fifth byte.\<close>

definition valueByte :: "BleCommand \<Rightarrow> int" where
  "valueByte c = uint (data c ! 4)"


section \<open>Volume rescaling (protocol/LovesacDevice.ts)\<close>

text \<open>
  \<open>Math.round\<close> rounds to the nearest integer, halves upwards: \<open>\<lfloor>x + 1/2\<rfloor>\<close>, which is
  \<open>round\<close>. The arithmetic is over the reals. For an integer argument the quotient \<open>25v/9\<close>
  of \<open>volumeToPercent\<close> is at least 1/18 away from every half-integer, and the quotient
  \<open>9p/25\<close> of \<open>percentToVolume\<close> at least 1/50, far more than the error of evaluating
  them in double precision for arguments of this size, so the double-precision result
  rounds to the same integer.
\<close>

definition volumeToPercent :: "int \<Rightarrow> int" where
  "volumeToPercent v = round ((real_of_int v / real_of_int MAX_VOLUME) * 100)"

definition percentToVolume :: "int \<Rightarrow> int" where
  "percentToVolume p = round ((real_of_int p / 100) * real_of_int MAX_VOLUME)"

section \<open>The device orchestrator: notification handling (protocol/LovesacDevice.ts)\<close>

text \<open>
  A registered listener is a callback; what matters to a broadcast is which callback it is
  and whether this invocation of it throws.
\<close>

datatype listener = Listener (listenerId: nat) (throws: bool)

datatype call = VersionCall nat | StateCall nat int int | ErrorLogged nat

datatype completion = Returned | Threw

record LovesacDevice =
  state :: DeviceState
  stateListeners :: "listener list"
  stateInitialized :: bool
  mcuVersion :: string
  versionListeners :: "listener list"

definition newLovesacDevice :: LovesacDevice where
  "newLovesacDevice =
     \<lparr> state = createDefaultState, stateListeners = [], stateInitialized = False,
       mcuVersion = [], versionListeners = [] \<rparr>"

definition onStateChange :: "listener \<Rightarrow> LovesacDevice \<Rightarrow> LovesacDevice" where
  "onStateChange l dev = dev\<lparr>stateListeners := stateListeners dev @ [l]\<rparr>"

definition onVersionResolved :: "listener \<Rightarrow> LovesacDevice \<Rightarrow> LovesacDevice" where
  "onVersionResolved l dev = dev\<lparr>versionListeners := versionListeners dev @ [l]\<rparr>"

text \<open>Decimal digits of a number, as a template literal prints it.\<close>

fun decimal :: "nat \<Rightarrow> string" where
  "decimal n =
     (if n < 10 then [''0123456789'' ! n]
      else decimal (n div 10) @ [''0123456789'' ! (n mod 10)])"

declare decimal.simps [simp del]

text \<open>
  The loop over \<open>versionListeners\<close> calls each listener with no handler around the call:
  a throw leaves the loop and \<open>handleNotification\<close>.
\<close>

fun notifyVersion :: "listener list \<Rightarrow> call list \<times> completion" where
  "notifyVersion [] = ([], Returned)"
| "notifyVersion (l # ls) =
     (if throws l then ([VersionCall (listenerId l)], Threw)
      else (let (cs, r) = notifyVersion ls in (VersionCall (listenerId l) # cs, r)))"

text \<open>
  The loop over \<open>stateListeners\<close> wraps each call in \<open>try\<close>/\<open>catch\<close>: a throw is logged
  and the loop goes on.
\<close>

fun notifyState :: "listener list \<Rightarrow> int \<Rightarrow> int \<Rightarrow> call list" where
  "notifyState [] c v = []"
| "notifyState (l # ls) c v =
     StateCall (listenerId l) c v
       # (if throws l then [ErrorLogged (listenerId l)] else []) @ notifyState ls c v"

definition handleNotification ::
    "Buffer \<Rightarrow> LovesacDevice \<Rightarrow> (call list \<times> completion) \<times> LovesacDevice" where
  "handleNotification d dev =
     (if length d \<ge> 8 \<and> d ! 2 = 0xAA \<and> d ! 3 = 0x01 \<and> d ! 4 = 0x03 then
        (let type = d ! 5; major = d ! 6; minor = d ! 7;
             ver = decimal (unat major) @ ''.'' @ decimal (unat minor)
         in if type = 0x01 \<and> mcuVersion dev = []
            then (notifyVersion (versionListeners dev), dev\<lparr>mcuVersion := ver\<rparr>)
            else (([], Returned), dev))
      else
        (case parseNotification d of
           None \<Rightarrow> (([], Returned), dev)
         | Some parsed \<Rightarrow>
             (let (changed, st) = applyResponse (state dev) parsed;
                  dev1 = dev\<lparr>state := st\<rparr>
              in if changed = OUT_OF_RANGE then (([], Returned), dev1)
                 else
                   (let dev2 = dev1\<lparr>stateInitialized := True\<rparr>
                    in if changed = Changed
                       then ((notifyState (stateListeners dev2) (code parsed) (val parsed),
                              Returned), dev2)
                       else (([], Returned), dev2)))))"

fun invoked :: "call list \<Rightarrow> nat list" where
  "invoked [] = []"
| "invoked (VersionCall i # cs) = i # invoked cs"
| "invoked (StateCall i c v # cs) = i # invoked cs"
| "invoked (ErrorLogged i # cs) = invoked cs"

section \<open>The link session supervisor (src/ble/BleConnectionManager.ts, ble/BleClient.ts)\<close>

text \<open>
  \<open>BleConnectionManager\<close> is asynchronous code on one thread: a call runs until it
  awaits a transport operation, and goes on when that operation completes. The model is a
  state machine. Its state holds the fields of the manager, the two fields of \<open>BleClient\<close>
  the manager's behaviour depends on, and the suspended computations: every
  \<open>processQueue\<close> loop that is waiting at an \<open>await\<close> (\<open>drains\<close>), and the \<open>doConnect\<close>
  call in flight, if any (\<open>connectPromise\<close>). An event is a call of \<open>enqueue\<close>, the completion
  of an awaited transport operation with its outcome, a disconnect seen by the client, the
  idle timer firing, or an inbound notification; \<open>step\<close> runs the code the event resumes up
  to the next \<open>await\<close> of a transport operation. Event lists are arbitrary, so every
  interleaving and every outcome of the transport is covered. An \<open>await\<close> of a promise
  that is already settled only lets other promise continuations run; the only ones that
  touch the manager are further \<open>enqueue\<close> calls, which append to the queue and commute
  with the code that follows, so such an \<open>await\<close> does not end a step.

  A queued command carries its completion handle (\<open>resolve\<close>/\<open>reject\<close>), identified here
  by the number \<open>handle\<close>, counted up by \<open>enqueue\<close>. \<open>trace\<close> records what the manager
  does, in order: commands accepted, calls of \<open>client.connect\<close> with their argument, scans
  the client starts (\<open>None\<close> is \<open>scanForAnyDevice\<close>), calls of \<open>subscribeNotifications\<close>,
  \<open>write\<close> and \<open>disconnect\<close>, and handles resolved or rejected. \<open>nextHandle\<close> and
  \<open>trace\<close> are bookkeeping of the model; the code has no such fields.
\<close>

record QueuedCommand =
  command :: BleCommand
  handle :: nat

datatype effect =
    Enqueued nat
  | Connect "string option"
  | Scan "string option"
  | Subscribe
  | Write QueuedCommand
  | Disconnect
  | Resolve nat
  | Reject nat

text \<open>
  Where a \<open>processQueue\<close> loop is suspended: in \<open>await this.ensureConnected()\<close> or in
  \<open>await this.client.write(...)\<close>, either in the \<open>try\<close> block (\<open>First\<close>) or in the retry
  inside its \<open>catch\<close> (\<open>Retry\<close>), or in \<open>await this.client.disconnect()\<close> between them.
\<close>

datatype attempt = First | Retry

datatype drain =
    EnsureConnected attempt QueuedCommand
  | Writing attempt QueuedCommand
  | Disconnecting QueuedCommand

text \<open>
  Where \<open>doConnect\<close> is suspended: in \<open>await this.client.connect(...)\<close> or in
  \<open>await this.client.subscribeNotifications(...)\<close>. The outcomes of \<open>BleClient.connect\<close>
  when it scans: no peripheral found (or the scan rejected), \<open>connectAsync\<close> failed,
  service discovery failed, or success; the last three have set \<open>_resolvedAddress\<close>.
\<close>

datatype connecting = Connecting | Subscribing

datatype connect_outcome =
    ScanFailed
  | ConnectFailed string
  | DiscoverFailed string
  | ConnectOk string

record Manager =
  queue :: "QueuedCommand list"
  processing :: bool
  idleTimer :: bool
  connected :: bool
  connectPromise :: "connecting option"
  resolvedAddress :: string
  onReconnectCallback :: "BleCommand list"
  address :: string
  client_connected :: bool
  client_resolvedAddress :: string
  drains :: "drain list"
  nextHandle :: nat
  trace :: "effect list"

definition newManager :: "string \<Rightarrow> BleCommand list \<Rightarrow> Manager" where
  "newManager addr cb =
     \<lparr> queue = [], processing = False, idleTimer = False, connected = False,
       connectPromise = None, resolvedAddress = addr, onReconnectCallback = cb,
       address = addr, client_connected = False, client_resolvedAddress = [],
       drains = [], nextHandle = 0, trace = [] \<rparr>"

definition emit :: "effect \<Rightarrow> Manager \<Rightarrow> Manager" where
  "emit e s = s\<lparr>trace := trace s @ [e]\<rparr>"

definition resetIdleTimer :: "Manager \<Rightarrow> Manager" where
  "resetIdleTimer s = s\<lparr>idleTimer := True\<rparr>"

definition clearIdleTimer :: "Manager \<Rightarrow> Manager" where
  "clearIdleTimer s = s\<lparr>idleTimer := False\<rparr>"

text \<open>
  \<open>doConnect\<close> after \<open>await this.client.connect(...)\<close> has returned: the resolved address
  is stored when none was configured, and \<open>subscribeNotifications\<close> is called.
\<close>

definition afterConnect :: "Manager \<Rightarrow> Manager" where
  "afterConnect s =
     (let s1 = (if address s = [] \<and> client_resolvedAddress s \<noteq> []
                then s\<lparr>resolvedAddress := client_resolvedAddress s\<rparr> else s)
      in (emit Subscribe s1)\<lparr>connectPromise := Some Subscribing\<rparr>)"

text \<open>
  \<open>doConnect\<close> up to its first suspension. It calls \<open>client.connect(this.address || undefined)\<close>;
  \<open>BleClient.connect\<close> returns at once when the client is connected, and otherwise scans
  for the given address, or for any device when there is none.
\<close>

definition doConnect :: "Manager \<Rightarrow> Manager" where
  "doConnect s =
     (let target = (if address s = [] then None else Some (address s));
          s1 = emit (Connect target) s
      in if client_connected s1 then afterConnect s1
         else (emit (Scan target) s1)\<lparr>connectPromise := Some Connecting\<rparr>)"

text \<open>
  \<open>ensureConnected\<close> up to its first suspension; the boolean says whether it returned
  without waiting for a connection attempt.
\<close>

definition ensureConnected :: "Manager \<Rightarrow> bool \<times> Manager" where
  "ensureConnected s =
     (if connected s \<and> client_connected s then (True, resetIdleTimer s)
      else if connectPromise s \<noteq> None then (False, s)
      else (False, doConnect s))"

text \<open>
  \<open>await this.ensureConnected(); await this.client.write(...)\<close>, as both the \<open>try\<close> block
  and the retry run it, up to the first suspension.
\<close>

definition attemptItem :: "attempt \<Rightarrow> QueuedCommand \<Rightarrow> Manager \<Rightarrow> drain \<times> Manager" where
  "attemptItem att item s =
     (let (ready, s') = ensureConnected s
      in if ready then (Writing att item, emit (Write item) s')
         else (EnsureConnected att item, s'))"

text \<open>
  The head of the \<open>while\<close> loop of \<open>processQueue\<close>: with the queue empty the loop ends and
  \<open>finally\<close> clears \<open>processing\<close>; otherwise the first command is shifted off the queue and
  attempted.
\<close>

definition nextItem :: "Manager \<Rightarrow> drain option \<times> Manager" where
  "nextItem s =
     (case queue s of
        [] \<Rightarrow> (None, s\<lparr>processing := False\<rparr>)
      | item # rest \<Rightarrow>
          (let (d, s') = attemptItem First item (s\<lparr>queue := rest\<rparr>) in (Some d, s')))"

text \<open>
  A call of \<open>processQueue\<close>: it returns at once when \<open>processing\<close> is set, and otherwise
  sets it and starts a loop, which joins the suspended loops unless it has ended already.
\<close>

definition processQueue :: "Manager \<Rightarrow> Manager" where
  "processQueue s =
     (if processing s then s
      else let (d, s') = nextItem (s\<lparr>processing := True\<rparr>)
           in s'\<lparr>drains := drains s' @ (case d of None \<Rightarrow> [] | Some x \<Rightarrow> [x])\<rparr>)"

definition enqueue :: "BleCommand \<Rightarrow> Manager \<Rightarrow> Manager" where
  "enqueue c s =
     processQueue
       (emit (Enqueued (nextHandle s))
          (s\<lparr>queue := queue s @ [\<lparr>command = c, handle = nextHandle s\<rparr>],
             nextHandle := Suc (nextHandle s)\<rparr>))"

text \<open>
  The two \<open>catch\<close> blocks. A failure in the \<open>try\<close> block clears \<open>connected\<close> and calls
  \<open>client.disconnect()\<close>; a failure in the retry rejects the command, and the loop goes on.
\<close>

definition failed :: "attempt \<Rightarrow> QueuedCommand \<Rightarrow> Manager \<Rightarrow> drain option \<times> Manager" where
  "failed att item s =
     (case att of
        First \<Rightarrow> (Some (Disconnecting item), emit Disconnect (s\<lparr>connected := False\<rparr>))
      | Retry \<Rightarrow> nextItem (emit (Reject (handle item)) s))"

text \<open>
  A loop resumed from \<open>await this.ensureConnected()\<close>: it writes when the connection
  attempt succeeded, and is in the \<open>catch\<close> block of its attempt when it failed.
\<close>

definition ensured :: "bool \<Rightarrow> attempt \<Rightarrow> QueuedCommand \<Rightarrow> Manager \<Rightarrow> drain option \<times> Manager" where
  "ensured ok att item s =
     (if ok then (Some (Writing att item), emit (Write item) s) else failed att item s)"

text \<open>
  The end of a connection attempt: \<open>connectPromise\<close> is cleared (the \<open>finally\<close> of
  \<open>ensureConnected\<close>) and every loop that awaits the attempt is resumed, in order.
\<close>

fun resumeWaiting :: "bool \<Rightarrow> drain list \<Rightarrow> Manager \<Rightarrow> drain list \<times> Manager" where
  "resumeWaiting ok [] s = ([], s)"
| "resumeWaiting ok (EnsureConnected att item # ds) s =
     (let (d, s') = ensured ok att item s;
          (ds', s'') = resumeWaiting ok ds s'
      in ((case d of None \<Rightarrow> [] | Some x \<Rightarrow> [x]) @ ds', s''))"
| "resumeWaiting ok (d # ds) s =
     (let (ds', s') = resumeWaiting ok ds s in (d # ds', s'))"

definition finishConnect :: "bool \<Rightarrow> Manager \<Rightarrow> Manager" where
  "finishConnect ok s =
     (let (ds, s') = resumeWaiting ok (drains s) (s\<lparr>connectPromise := None\<rparr>)
      in s'\<lparr>drains := ds\<rparr>)"

text \<open>The loop at position \<open>k\<close> has run to its next suspension, or has ended.\<close>

definition resumeAt :: "nat \<Rightarrow> drain option \<times> Manager \<Rightarrow> Manager" where
  "resumeAt k r =
     (let (d, s) = r
      in s\<lparr>drains := take k (drains s) @ (case d of None \<Rightarrow> [] | Some x \<Rightarrow> [x])
                        @ drop (Suc k) (drains s)\<rparr>)"

text \<open>
  The events. \<open>WriteDone\<close> and \<open>DisconnectDone\<close> name the loop whose operation completed;
  an event that no suspended computation awaits changes nothing. The callback registered
  with \<open>onReconnect\<close> is modelled by the commands it enqueues when it is called
  (\<open>LovesacDevice\<close> registers one that enqueues \<open>requestDeviceInfo\<close>); it does not throw.
  \<open>BleClient.disconnect\<close> ends with \<open>_connected = false\<close>. The idle timer's callback is
  \<open>disconnect()\<close>: it clears the timer and \<open>connected\<close> and calls \<open>client.disconnect()\<close>,
  whose completion is seen as a \<open>PeerDisconnect\<close>.
\<close>

datatype event =
    Enqueue BleCommand
  | ConnectDone connect_outcome
  | SubscribeDone bool
  | WriteDone nat bool
  | DisconnectDone nat
  | PeerDisconnect
  | IdleTimeout
  | Notification

fun step :: "event \<Rightarrow> Manager \<Rightarrow> Manager" where
  "step (Enqueue c) s = enqueue c s"
| "step (ConnectDone r) s =
     (if connectPromise s = Some Connecting then
        (case r of
           ScanFailed \<Rightarrow> finishConnect False (s\<lparr>connected := False\<rparr>)
         | ConnectFailed a \<Rightarrow>
             finishConnect False (s\<lparr>client_resolvedAddress := a, connected := False\<rparr>)
         | DiscoverFailed a \<Rightarrow>
             finishConnect False
               (s\<lparr>client_resolvedAddress := a, client_connected := True, connected := False\<rparr>)
         | ConnectOk a \<Rightarrow>
             afterConnect (s\<lparr>client_resolvedAddress := a, client_connected := True\<rparr>))
      else s)"
| "step (SubscribeDone ok) s =
     (if connectPromise s = Some Subscribing then
        (if ok then
           finishConnect True
             (foldl (\<lambda>s' c. enqueue c s') (resetIdleTimer (s\<lparr>connected := True\<rparr>))
                (onReconnectCallback s))
         else finishConnect False (s\<lparr>connected := False\<rparr>))
      else s)"
| "step (WriteDone k ok) s =
     (if k < length (drains s) then
        (case drains s ! k of
           Writing att item \<Rightarrow>
             resumeAt k
               (if ok then nextItem (emit (Resolve (handle item)) (resetIdleTimer s))
                else failed att item s)
         | _ \<Rightarrow> s)
      else s)"
| "step (DisconnectDone k) s =
     (if k < length (drains s) then
        (case drains s ! k of
           Disconnecting item \<Rightarrow>
             resumeAt k
               (let (d, s') = attemptItem Retry item (s\<lparr>client_connected := False\<rparr>)
                in (Some d, s'))
         | _ \<Rightarrow> s)
      else s)"
| "step PeerDisconnect s = s\<lparr>client_connected := False\<rparr>"
| "step IdleTimeout s =
     (if idleTimer s then emit Disconnect ((clearIdleTimer s)\<lparr>connected := False\<rparr>) else s)"
| "step Notification s = resetIdleTimer s"

fun run :: "event list \<Rightarrow> Manager \<Rightarrow> Manager" where
  "run [] s = s"
| "run (e # es) s = run es (step e s)"

text \<open>Projections of the trace: handles in the order they were enqueued, written, completed.\<close>

fun enqueued :: "effect list \<Rightarrow> nat list" where
  "enqueued [] = []"
| "enqueued (Enqueued h # t) = h # enqueued t"
| "enqueued (_ # t) = enqueued t"

fun written :: "effect list \<Rightarrow> nat list" where
  "written [] = []"
| "written (Write q # t) = handle q # written t"
| "written (_ # t) = written t"

fun completed :: "effect list \<Rightarrow> nat list" where
  "completed [] = []"
| "completed (Resolve h # t) = h # completed t"
| "completed (Reject h # t) = h # completed t"
| "completed (_ # t) = completed t"

fun scans :: "effect list \<Rightarrow> string option list" where
  "scans [] = []"
| "scans (Scan a # t) = a # scans t"
| "scans (_ # t) = scans t"

fun drainItem :: "drain \<Rightarrow> QueuedCommand" where
  "drainItem (EnsureConnected att item) = item"
| "drainItem (Writing att item) = item"
| "drainItem (Disconnecting item) = item"

section \<open>The supervisor's queue discipline: what the proofs keep track of\<close>

text \<open>
  \<open>view\<close> keeps the part of the state the ordering properties speak about: the suspended
  loops, the queue, \<open>processing\<close>, whether a connection attempt is in flight, and the
  handles enqueued, written and completed so far. \<open>aPush\<close>, \<open>aAttempt\<close>, \<open>aNext\<close>,
  \<open>aComplete\<close> and \<open>aFailed\<close> are what \<open>enqueue\<close>, \<open>attemptItem\<close>, \<open>nextItem\<close>, a
  completion followed by \<open>nextItem\<close>, and \<open>failed\<close> do to the view; \<open>w\<close> says whether the
  link was up. \<open>INV\<close> is the invariant of the reachable states; \<open>budget\<close> bounds the
  writes of the command a loop holds by where the loop is suspended.
\<close>

fun waiting :: "drain \<Rightarrow> bool" where
  "waiting (EnsureConnected att item) = True"
| "waiting (Writing att item) = False"
| "waiting (Disconnecting item) = False"

fun budget :: "drain \<Rightarrow> nat" where
  "budget (EnsureConnected First item) = 0"
| "budget (Writing First item) = 1"
| "budget (Disconnecting item) = 1"
| "budget (EnsureConnected Retry item) = 1"
| "budget (Writing Retry item) = 2"

record view =
  v_drains :: "drain list"
  v_queue :: "QueuedCommand list"
  v_processing :: bool
  v_connecting :: bool
  v_next :: nat
  v_enq :: "nat list"
  v_wr :: "nat list"
  v_done :: "nat list"

definition view :: "Manager \<Rightarrow> view" where
  "view s = \<lparr> v_drains = drains s, v_queue = queue s, v_processing = processing s,
              v_connecting = (connectPromise s \<noteq> None), v_next = nextHandle s,
              v_enq = enqueued (trace s), v_wr = written (trace s),
              v_done = completed (trace s) \<rparr>"

definition up :: "Manager \<Rightarrow> bool" where
  "up s \<longleftrightarrow> connected s \<and> client_connected s"

definition aPush :: "BleCommand \<Rightarrow> view \<Rightarrow> view" where
  "aPush c v = v\<lparr>v_queue := v_queue v @ [\<lparr>command = c, handle = v_next v\<rparr>],
                 v_next := Suc (v_next v), v_enq := v_enq v @ [v_next v]\<rparr>"

definition aAttempt :: "bool \<Rightarrow> attempt \<Rightarrow> QueuedCommand \<Rightarrow> view \<Rightarrow> view" where
  "aAttempt w att item v =
     (if w then v\<lparr>v_drains := [Writing att item], v_wr := v_wr v @ [handle item]\<rparr>
      else v\<lparr>v_drains := [EnsureConnected att item], v_connecting := True\<rparr>)"

definition aNext :: "bool \<Rightarrow> view \<Rightarrow> view" where
  "aNext w v =
     (case v_queue v of
        [] \<Rightarrow> v\<lparr>v_drains := [], v_processing := False\<rparr>
      | item # rest \<Rightarrow> aAttempt w First item (v\<lparr>v_queue := rest\<rparr>))"

definition aComplete :: "bool \<Rightarrow> QueuedCommand \<Rightarrow> view \<Rightarrow> view" where
  "aComplete w item v = aNext w (v\<lparr>v_done := v_done v @ [handle item]\<rparr>)"

definition aFailed :: "bool \<Rightarrow> attempt \<Rightarrow> QueuedCommand \<Rightarrow> view \<Rightarrow> view" where
  "aFailed w att item v =
     (case att of First \<Rightarrow> v\<lparr>v_drains := [Disconnecting item]\<rparr>
      | Retry \<Rightarrow> aComplete w item v)"

definition put :: "drain option \<times> Manager \<Rightarrow> view" where
  "put r = (view (snd r))\<lparr>v_drains := (case fst r of None \<Rightarrow> [] | Some x \<Rightarrow> [x])\<rparr>"

definition INV :: "view \<Rightarrow> bool" where
  "INV v \<longleftrightarrow>
     length (v_drains v) \<le> 1
     \<and> (v_processing v \<longleftrightarrow> v_drains v \<noteq> [])
     \<and> (v_drains v = [] \<longrightarrow> v_queue v = [])
     \<and> (v_connecting v \<longleftrightarrow> (\<exists>d \<in> set (v_drains v). waiting d))
     \<and> v_enq v = [0..<v_next v]
     \<and> v_done v @ map handle (map drainItem (v_drains v) @ v_queue v) = [0..<v_next v]
     \<and> sorted (v_wr v)
     \<and> (\<forall>h \<in> set (v_wr v). h < length (v_done v) + length (v_drains v))
     \<and> (\<forall>h. count_list (v_wr v) h \<le> 2)
     \<and> (\<forall>d \<in> set (v_drains v). count_list (v_wr v) (handle (drainItem d)) \<le> budget d)"

text \<open>
  The queue entries the reconnect callback adds when the next free handle is \<open>n\<close>, and
  the argument \<open>doConnect\<close> passes to \<open>client.connect\<close>.
\<close>

definition callbackItems :: "nat \<Rightarrow> BleCommand list \<Rightarrow> QueuedCommand list" where
  "callbackItems n cb = map (\<lambda>(h, c). \<lparr>command = c, handle = h\<rparr>) (zip [n..<n + length cb] cb)"


text \<open>
  A reading of the trace that ties completions to writes. \<open>pendingWrite\<close> is the handle of
  the most recent write that no \<open>Resolve\<close> has followed yet; \<open>resolvesPendingWrite\<close> says
  that every \<open>Resolve\<close> in the trace is of exactly that handle, so no handle is resolved
  without a write of its command, nor for a write of another command. \<open>RES\<close> adds that a
  loop waiting for a write waits for the pending one. \<open>optList\<close> is the loop a resumed
  computation leaves behind, if any.
\<close>

fun pendingWrite :: "nat option \<Rightarrow> effect list \<Rightarrow> nat option" where
  "pendingWrite w [] = w"
| "pendingWrite w (Write q # t) = pendingWrite (Some (handle q)) t"
| "pendingWrite w (Resolve h # t) = pendingWrite None t"
| "pendingWrite w (_ # t) = pendingWrite w t"

fun resolvesPendingWrite :: "nat option \<Rightarrow> effect list \<Rightarrow> bool" where
  "resolvesPendingWrite w [] = True"
| "resolvesPendingWrite w (Write q # t) = resolvesPendingWrite (Some (handle q)) t"
| "resolvesPendingWrite w (Resolve h # t) = (w = Some h \<and> resolvesPendingWrite None t)"
| "resolvesPendingWrite w (_ # t) = resolvesPendingWrite w t"

definition RES :: "drain list \<Rightarrow> effect list \<Rightarrow> bool" where
  "RES ds t \<longleftrightarrow>
     resolvesPendingWrite None t
     \<and> (\<forall>att item. ds = [Writing att item] \<longrightarrow> pendingWrite None t = Some (handle item))"

definition optList :: "'a option \<Rightarrow> 'a list" where
  "optList d = (case d of None \<Rightarrow> [] | Some x \<Rightarrow> [x])"


section \<open>Properties of the codec and the state store\<close>

lemma ResponseCode_of_status [simp]: "ResponseCode_of (code (status c v)) = Some c"
  by (cases c) (simp_all add: status_def ResponseCode_of_def)

lemma val_status [simp]: "val (status c v) = v"
  by (simp add: status_def)

lemma applyResponse_twice_unchanged:
  "declaredRange c = Some (lo, hi) \<Longrightarrow> inRange v lo hi \<Longrightarrow>
   fst (applyResponse (snd (applyResponse s (status c v))) (status c v)) = Unchanged"
  by (cases c) (auto simp add: applyResponse_def Let_def)

lemma applyResponse_first_changed_numeric:
  "c \<in> {Volume, CenterVolume, Treble, Bass, Balance, Source, Preset, RearVolume} \<Longrightarrow>
   declaredRange c = Some (lo, hi) \<Longrightarrow> inRange v lo hi \<Longrightarrow>
   fst (applyResponse createDefaultState (status c v)) = Changed"
  by (cases c) (auto simp add: applyResponse_def createDefaultState_def inRange_def)

text \<open>
  C1. The claim: on a fresh default state the first application of any valid status is
  reported as changed. The boolean fields of the default state hold \<open>false\<close>, which is a
  valid device value, so the first observation of "not muted" (code \<open>Mute\<close>, value 0) on
  the default state is reported as unchanged and the state stays as it was.
\<close>

theorem default_state_first_mute_unchanged:
  "applyResponse createDefaultState (status Mute 0) = (Unchanged, createDefaultState)"
  by (simp add: applyResponse_def inRange_def createDefaultState_def)

text \<open>
  C5. A power status with wire value 0 leaves \<open>power\<close> true and wire value 1 leaves it
  false, whatever the state was before; mute, quiet mode and subwoofer-connected are true
  after wire value 1 and false after wire value 0.
\<close>

theorem power_status_inverted_polarity:
  "power (snd (applyResponse s (status Power 0))) = True
   \<and> power (snd (applyResponse s (status Power 1))) = False
   \<and> mute (snd (applyResponse s (status Mute 1))) = True
   \<and> mute (snd (applyResponse s (status Mute 0))) = False
   \<and> quietMode (snd (applyResponse s (status QuietMode 1))) = True
   \<and> quietMode (snd (applyResponse s (status QuietMode 0))) = False
   \<and> subwooferConnected (snd (applyResponse s (status Subwoofer 1))) = True
   \<and> subwooferConnected (snd (applyResponse s (status Subwoofer 0))) = False"
  by (simp add: applyResponse_def inRange_def)

lemma valueByte_formatA: "uint (formatA a b v ! 4) = v mod 256"
  by (simp add: formatA_def uint_word_of_int)

lemma clamp_fits_byte:
  "0 \<le> hi \<Longrightarrow> hi < 256 \<Longrightarrow> max 0 (min hi v) mod 256 = max 0 (min hi (v::int))"
  by (simp add: mod_pos_pos_trivial)

lemma valueByte_eqCommand: "valueByte (eqCommand sub v) = v mod 256"
  by (simp add: eqCommand_def valueByte_def valueByte_formatA)

text \<open>
  C6, as stated: every encoder with a numeric input clamps it. \<open>setPlayPause\<close> does not:
  no range \<open>[lo, hi]\<close> makes its value byte the clamp of its input, since 255 is encoded
  as 255 and 256 as 0.
\<close>

theorem setPlayPause_is_no_clamp:
  "\<not> (\<exists>lo hi. \<forall>v. valueByte (setPlayPause v) = max lo (min hi v))"
proof
  assume "\<exists>lo hi. \<forall>v. valueByte (setPlayPause v) = max lo (min hi v)"
  then obtain lo hi where h: "\<forall>v. valueByte (setPlayPause v) = max lo (min hi v)"
    by blast
  have a: "valueByte (setPlayPause 255) = 255" and b: "valueByte (setPlayPause 256) = 0"
    by (simp_all add: valueByte_def setPlayPause_def formatA_def)
  from h a have "max lo (min hi 255) = 255" by simp
  moreover from h b have "max lo (min hi 256) = 0" by simp
  ultimately show False by linarith
qed

text \<open>
  C6, amended: each of the six encoders with a documented range returns, for every
  integer, the shape-A frame whose value byte is the input clamped to that range (so the
  byte lies in the range); \<open>setPlayPause\<close> and \<open>setSkip\<close>, which document no range, return
  the shape-A frame holding the low eight bits of the input, unclamped. No encoder has a
  failing branch.
\<close>

theorem encoders_clamp_documented_ranges:
  "data (setVolume v) = [0xAA, 0x03, 0x02, 0x01, word_of_int (max 0 (min 36 v))]
   \<and> valueByte (setVolume v) = max 0 (min 36 v)
   \<and> data (setBass v) = [0xAA, 0x03, 0x01, 0x01, word_of_int (max 0 (min 20 v))]
   \<and> valueByte (setBass v) = max 0 (min 20 v)
   \<and> data (setTreble v) = [0xAA, 0x03, 0x00, 0x01, word_of_int (max 0 (min 20 v))]
   \<and> valueByte (setTreble v) = max 0 (min 20 v)
   \<and> data (setCenterVolume v) = [0xAA, 0x03, 0x03, 0x01, word_of_int (max 0 (min 30 v))]
   \<and> valueByte (setCenterVolume v) = max 0 (min 30 v)
   \<and> data (setRearVolume v) = [0xAA, 0x03, 0x0A, 0x01, word_of_int (max 0 (min 30 v))]
   \<and> valueByte (setRearVolume v) = max 0 (min 30 v)
   \<and> data (setBalance v) = [0xAA, 0x04, 0x00, 0x01, word_of_int (max 0 (min 100 v))]
   \<and> valueByte (setBalance v) = max 0 (min 100 v)
   \<and> data (setPlayPause v) = [0xAA, 0x05, 0x00, 0x01, word_of_int v]
   \<and> valueByte (setPlayPause v) = v mod 256
   \<and> data (setSkip v) = [0xAA, 0x05, 0x01, 0x01, word_of_int v]
   \<and> valueByte (setSkip v) = v mod 256"
proof -
  have frames:
    "data (setVolume v) = [0xAA, 0x03, 0x02, 0x01, word_of_int (max 0 (min 36 v))]"
    "data (setBass v) = [0xAA, 0x03, 0x01, 0x01, word_of_int (max 0 (min 20 v))]"
    "data (setTreble v) = [0xAA, 0x03, 0x00, 0x01, word_of_int (max 0 (min 20 v))]"
    "data (setCenterVolume v) = [0xAA, 0x03, 0x03, 0x01, word_of_int (max 0 (min 30 v))]"
    "data (setRearVolume v) = [0xAA, 0x03, 0x0A, 0x01, word_of_int (max 0 (min 30 v))]"
    "data (setBalance v) = [0xAA, 0x04, 0x00, 0x01, word_of_int (max 0 (min 100 v))]"
    "data (setPlayPause v) = [0xAA, 0x05, 0x00, 0x01, word_of_int v]"
    "data (setSkip v) = [0xAA, 0x05, 0x01, 0x01, word_of_int v]"
    by (simp_all add: setVolume_def setBass_def setTreble_def setCenterVolume_def
        setRearVolume_def setBalance_def setPlayPause_def setSkip_def eqCommand_def
        formatA_def)
  have bytes:
    "valueByte (setVolume v) = max 0 (min 36 v)"
    "valueByte (setBass v) = max 0 (min 20 v)"
    "valueByte (setTreble v) = max 0 (min 20 v)"
    "valueByte (setCenterVolume v) = max 0 (min 30 v)"
    "valueByte (setRearVolume v) = max 0 (min 30 v)"
    by (simp_all add: setVolume_def setBass_def setTreble_def setCenterVolume_def
        setRearVolume_def valueByte_eqCommand clamp_fits_byte)
  have rest:
    "valueByte (setBalance v) = max 0 (min 100 v)"
    "valueByte (setPlayPause v) = v mod 256"
    "valueByte (setSkip v) = v mod 256"
    by (simp_all add: setBalance_def setPlayPause_def setSkip_def valueByte_def
        valueByte_formatA clamp_fits_byte)
  show ?thesis
    by (intro conjI frames bytes rest)
qed

lemma parseNotification_Some_iff:
  "parseNotification d = Some r \<longleftrightarrow>
     length d \<ge> 4
     \<and> \<not> (length d \<ge> 5 \<and> d ! 2 = 0xAA \<and> d ! 3 = 0x01 \<and> d ! 4 = 0x03)
     \<and> 0x01 \<le> uint (d ! (length d - 2)) \<and> uint (d ! (length d - 2)) \<le> 0x0F
     \<and> r = \<lparr> code = uint (d ! (length d - 2)), val = uint (d ! (length d - 1)) \<rparr>"
  by (auto simp add: parseNotification_def Let_def)


lemma volumeToPercent_div: "volumeToPercent v = (200 * v + 36) div 72"
proof -
  have "(real_of_int v / 36) * 100 + 1 / 2 = real_of_int (200 * v + 36) / real_of_int 72"
    by simp
  then show ?thesis
    unfolding volumeToPercent_def MAX_VOLUME_def round_def
    by (metis floor_divide_of_int_eq of_int_numeral)
qed

lemma percentToVolume_div: "percentToVolume p = (72 * p + 100) div 200"
proof -
  have "(real_of_int p / 100) * 36 + 1 / 2 = real_of_int (72 * p + 100) / real_of_int 200"
    by simp
  then show ?thesis
    unfolding percentToVolume_def MAX_VOLUME_def round_def
    by (metis floor_divide_of_int_eq of_int_numeral)
qed

lemma percentToVolume_volumeToPercent: "percentToVolume (volumeToPercent v) = v"
proof -
  define q where "q = (200 * v + 36) div 72"
  define r where "r = (200 * v + 36) mod 72"
  have qr: "200 * v + 36 = 72 * q + r" and r: "0 \<le> r" "r < 72"
    by (simp_all add: q_def r_def)
  have "72 * q + 100 = (136 - r) + v * 200"
    using qr by simp
  then have "(72 * q + 100) div 200 = (136 - r) div 200 + v"
    by (simp only: div_mult_self1)
  moreover have "(136 - r) div 200 = 0"
    using r by (simp add: div_pos_pos_trivial)
  ultimately show ?thesis
    by (simp add: volumeToPercent_div percentToVolume_div q_def)
qed

text \<open>
  C8. For every volume \<open>v\<close> from 0 to 36, converting to a percentage and back gives a
  volume that differs from \<open>v\<close> by at most 1.
\<close>

theorem volume_percent_roundtrip:
  "0 \<le> v \<Longrightarrow> v \<le> 36 \<Longrightarrow> \<bar>percentToVolume (volumeToPercent v) - v\<bar> \<le> 1"
  by (simp add: percentToVolume_volumeToPercent)

theorem volume_percent_roundtrip_witness:
  "(0::int) \<le> 7 \<and> (7::int) \<le> 36 \<and> \<bar>percentToVolume (volumeToPercent 7) - 7\<bar> \<le> 1"
  using volume_percent_roundtrip [of 7] by simp

text \<open>
  C10. \<open>setPower on\<close> is the frame \<open>AA 04 01 01 v\<close> on the AudioPath endpoint with
  \<open>v = 1\<close> for on and \<open>v = 0\<close> for off; the byte written for on, read as an inbound
  power status, leaves \<open>power\<close> false, and the byte written for off leaves it true.
\<close>

theorem setPower_natural_polarity:
  "setPower on = \<lparr> characteristicUuid = CharUUID_AudioPath,
                   data = [0xAA, 0x04, 0x01, 0x01, if on then 1 else 0] \<rparr>
   \<and> valueByte (setPower True) = 1
   \<and> power (snd (applyResponse s (status Power (valueByte (setPower True))))) = False
   \<and> valueByte (setPower False) = 0
   \<and> power (snd (applyResponse s (status Power (valueByte (setPower False))))) = True"
  by (simp add: setPower_def formatA_def valueByte_def applyResponse_def inRange_def)

section \<open>Properties of the listener broadcasts\<close>

lemma invoked_append [simp]: "invoked (xs @ ys) = invoked xs @ invoked ys"
  by (induction xs rule: invoked.induct) simp_all

lemma notifyState_invokes_all: "invoked (notifyState ls c v) = map listenerId ls"
  by (induction ls) simp_all

text \<open>
  C9. The claim: in both broadcasts a throwing listener does not keep the remaining
  listeners from being invoked. With two version listeners registered, the first of which
  throws, the main-controller version report \<open>CC 06 AA 01 03 01 01 47\<close> invokes the first
  listener only: the throw leaves \<open>handleNotification\<close> and the second listener is never
  called. (The state-change broadcast does call every listener, in registration order:
  \<open>notifyState_invokes_all\<close>.)
\<close>

theorem version_listener_throw_skips_rest:
  "handleNotification [0xCC, 0x06, 0xAA, 0x01, 0x03, 0x01, 0x01, 0x47]
     (onVersionResolved (Listener 1 False) (onVersionResolved (Listener 0 True) newLovesacDevice))
   = (([VersionCall 0], Threw),
      (onVersionResolved (Listener 1 False) (onVersionResolved (Listener 0 True) newLovesacDevice))
        \<lparr>mcuVersion := ''1.71''\<rparr>)"
  by (simp add: handleNotification_def onVersionResolved_def newLovesacDevice_def decimal.simps)

section \<open>Properties of the link session supervisor\<close>

lemma enqueued_append [simp]: "enqueued (t @ u) = enqueued t @ enqueued u"
  by (induction t rule: enqueued.induct) simp_all

lemma written_append [simp]: "written (t @ u) = written t @ written u"
  by (induction t rule: written.induct) simp_all

lemma completed_append [simp]: "completed (t @ u) = completed t @ completed u"
  by (induction t rule: completed.induct) simp_all

lemma scans_append [simp]: "scans (t @ u) = scans t @ scans u"
  by (induction t rule: scans.induct) simp_all

lemma view_doConnect: "view (doConnect s) = (view s)\<lparr>v_connecting := True\<rparr>"
  by (simp add: doConnect_def afterConnect_def emit_def view_def Let_def)

lemma attemptItem_fst:
  "fst (attemptItem att item s) =
     (if up s then Writing att item else EnsureConnected att item)"
  by (simp add: attemptItem_def ensureConnected_def up_def)

lemma attemptItem_view:
  "v_connecting (view s) = False \<Longrightarrow>
   (view (snd (attemptItem att item s)))\<lparr>v_drains := [fst (attemptItem att item s)]\<rparr>
     = aAttempt (up s) att item (view s)"
  by (simp add: attemptItem_def ensureConnected_def aAttempt_def up_def view_def emit_def resetIdleTimer_def
      doConnect_def afterConnect_def Let_def)

lemma up_simps [simp]:
  "up (s\<lparr>queue := q\<rparr>) = up s"
  "up (s\<lparr>processing := p\<rparr>) = up s"
  "up (s\<lparr>connectPromise := cp\<rparr>) = up s"
  "up (s\<lparr>idleTimer := i\<rparr>) = up s"
  "up (s\<lparr>nextHandle := n\<rparr>) = up s"
  "up (s\<lparr>trace := t\<rparr>) = up s"
  "up (s\<lparr>drains := ds\<rparr>) = up s"
  "up (emit e s) = up s"
  "up (resetIdleTimer s) = up s"
  by (simp_all add: up_def emit_def resetIdleTimer_def)

lemma view_simps [simp]:
  "view (s\<lparr>queue := q\<rparr>) = (view s)\<lparr>v_queue := q\<rparr>"
  "view (s\<lparr>processing := p\<rparr>) = (view s)\<lparr>v_processing := p\<rparr>"
  "view (s\<lparr>idleTimer := i\<rparr>) = view s"
  "view (s\<lparr>connected := b\<rparr>) = view s"
  "view (s\<lparr>client_connected := b\<rparr>) = view s"
  "view (s\<lparr>client_resolvedAddress := a\<rparr>) = view s"
  "view (s\<lparr>resolvedAddress := a\<rparr>) = view s"
  "view (s\<lparr>drains := ds\<rparr>) = (view s)\<lparr>v_drains := ds\<rparr>"
  "view (s\<lparr>nextHandle := n\<rparr>) = (view s)\<lparr>v_next := n\<rparr>"
  "view (s\<lparr>connectPromise := cp\<rparr>) = (view s)\<lparr>v_connecting := (cp \<noteq> None)\<rparr>"
  "view (resetIdleTimer s) = view s"
  "view (clearIdleTimer s) = view s"
  by (simp_all add: view_def resetIdleTimer_def clearIdleTimer_def)

lemma view_emit [simp]:
  "view (emit (Enqueued h) s) = (view s)\<lparr>v_enq := v_enq (view s) @ [h]\<rparr>"
  "view (emit (Write q) s) = (view s)\<lparr>v_wr := v_wr (view s) @ [handle q]\<rparr>"
  "view (emit (Resolve h) s) = (view s)\<lparr>v_done := v_done (view s) @ [h]\<rparr>"
  "view (emit (Reject h) s) = (view s)\<lparr>v_done := v_done (view s) @ [h]\<rparr>"
  "view (emit Disconnect s) = view s"
  "view (emit Subscribe s) = view s"
  "view (emit (Connect a) s) = view s"
  "view (emit (Scan a) s) = view s"
  by (simp_all add: view_def emit_def)

lemma view_sel [simp]:
  "v_drains (view s) = drains s"
  "v_queue (view s) = queue s"
  "v_processing (view s) = processing s"
  "v_connecting (view s) = (connectPromise s \<noteq> None)"
  "v_next (view s) = nextHandle s"
  by (simp_all add: view_def)

lemma put_nextItem:
  assumes "connectPromise s = None"
  shows "put (nextItem s) = aNext (up s) (view s)"
proof (cases "queue s")
  case Nil
  then show ?thesis
    by (simp add: put_def nextItem_def aNext_def)
next
  case (Cons item rest)
  have "v_connecting (view (s\<lparr>queue := rest\<rparr>)) = False"
    using assms by simp
  from attemptItem_view [OF this, of First item]
  have "put (nextItem s) = aAttempt (up s) First item ((view s)\<lparr>v_queue := rest\<rparr>)"
    by (simp add: put_def nextItem_def Cons split_beta)
  then show ?thesis
    by (simp add: aNext_def Cons)
qed

lemma put_failed:
  assumes "connectPromise s = None"
  shows "put (failed att item s) = aFailed (up s) att item (view s)"
proof (cases att)
  case First
  then show ?thesis
    by (simp add: put_def failed_def aFailed_def)
next
  case Retry
  have "connectPromise (emit (Reject (handle item)) s) = None"
    using assms by (simp add: emit_def)
  from put_nextItem [OF this] show ?thesis
    by (simp add: failed_def aFailed_def aComplete_def Retry)
qed

lemma put_attemptItem:
  assumes "connectPromise s = None"
  shows "put (let (d, s') = attemptItem att item s in (Some d, s'))
           = aAttempt (up s) att item (view s)"
proof -
  have "v_connecting (view s) = False" using assms by simp
  from attemptItem_view [OF this, of att item] show ?thesis
    by (simp add: put_def split_beta)
qed

lemma resumeAt_single: "drains (snd r) = [d] \<Longrightarrow> view (resumeAt 0 r) = put r"
  by (simp add: resumeAt_def put_def split_beta)

lemma drains_attemptItem [simp]: "drains (snd (attemptItem att item s)) = drains s"
  by (simp add: attemptItem_def ensureConnected_def doConnect_def afterConnect_def emit_def resetIdleTimer_def Let_def)

lemma drains_nextItem [simp]: "drains (snd (nextItem s)) = drains s"
  by (cases "queue s") (simp_all add: nextItem_def split_beta)

lemma drains_failed [simp]: "drains (snd (failed att item s)) = drains s"
  by (cases att) (simp_all add: failed_def emit_def)

lemma drains_emit [simp]: "drains (emit e s) = drains s"
  by (simp add: emit_def)

lemma drains_resetIdleTimer [simp]: "drains (resetIdleTimer s) = drains s"
  by (simp add: resetIdleTimer_def)

lemma connectPromise_emit [simp]: "connectPromise (emit e s) = connectPromise s"
  by (simp add: emit_def)

lemma connectPromise_resetIdleTimer [simp]: "connectPromise (resetIdleTimer s) = connectPromise s"
  by (simp add: resetIdleTimer_def)

text \<open>What each event does to the view, when at most one drain loop is active.\<close>

lemma view_WriteDone:
  assumes "drains s = [Writing att item]" and "connectPromise s = None"
  shows "view (step (WriteDone 0 ok) s) =
           (if ok then aComplete (up s) item (view s) else aFailed (up s) att item (view s))"
proof (cases ok)
  case True
  have "connectPromise (emit (Resolve (handle item)) (resetIdleTimer s)) = None"
    using assms by simp
  from put_nextItem [OF this] show ?thesis
    using assms True by (simp add: resumeAt_single aComplete_def)
next
  case False
  from put_failed [OF assms(2)] show ?thesis
    using assms False by (simp add: resumeAt_single)
qed

lemma view_DisconnectDone:
  assumes "drains s = [Disconnecting item]" and "connectPromise s = None"
  shows "view (step (DisconnectDone 0) s) = aAttempt False Retry item (view s)"
proof -
  let ?s = "s\<lparr>client_connected := False\<rparr>"
  have "connectPromise ?s = None" using assms by simp
  from put_attemptItem [OF this, of Retry item]
  show ?thesis
    using assms by (simp add: resumeAt_single split_beta up_def)
qed

lemma upt_append_Cons:
  assumes "xs @ h # ys = [0..<n]"
  shows "h = length xs"
proof -
  have "length xs < n"
    using assms by (metis length_append length_upt less_add_Suc1 list.size(4) minus_nat.diff_0 add_Suc_right)
  have "(xs @ h # ys) ! length xs = h" by simp
  then have "[0..<n] ! length xs = h" using assms by simp
  then show ?thesis using \<open>length xs < n\<close> by simp
qed

lemma count_list_fresh: "\<forall>h \<in> set xs. h < n \<Longrightarrow> count_list xs (n::nat) = 0"
  by (induction xs) auto

lemma INV_push: "INV v \<Longrightarrow> v_processing v \<Longrightarrow> INV (aPush c v)"
  by (auto simp add: INV_def aPush_def)

lemma INV_attempt_first:
  assumes "INV v" "v_drains v = [d]" "\<not> waiting d" "v_queue v = item # rest"
  shows "INV (aAttempt w First item (v\<lparr>v_done := v_done v @ [handle (drainItem d)], v_queue := rest\<rparr>))"
proof -
  have "(v_done v @ [handle (drainItem d)]) @ handle item # map handle rest = [0..<v_next v]"
    using assms by (simp add: INV_def)
  from upt_append_Cons [OF this] have h: "handle item = Suc (length (v_done v))" by simp
  have fresh: "count_list (v_wr v) (handle item) = 0"
    using assms h by (intro count_list_fresh) (auto simp add: INV_def)
  have le: "\<forall>x \<in> set (v_wr v). x \<le> handle item"
    using assms h by (auto simp add: INV_def)
  show ?thesis
    using assms h fresh le
    by (auto simp add: INV_def aAttempt_def sorted_append)
qed

lemma INV_complete:
  assumes "INV v" "v_drains v = [d]" "\<not> waiting d"
  shows "INV (aComplete w (drainItem d) v)"
proof (cases "v_queue v")
  case Nil
  have "length (v_done v @ [handle (drainItem d)]) = length [0..<v_next v]"
    using assms Nil by (simp add: INV_def)
  then have "v_next v = Suc (length (v_done v))" by simp
  then show ?thesis
    using assms Nil by (auto simp add: INV_def aComplete_def aNext_def)
next
  case (Cons item rest)
  from INV_attempt_first [OF assms Cons, of w] show ?thesis
    by (simp add: aComplete_def aNext_def Cons)
qed

lemma INV_start:
  assumes "INV v" "\<not> v_processing v"
  shows "INV (aNext w ((aPush c v)\<lparr>v_processing := True\<rparr>))"
proof -
  have d: "v_drains v = []" "v_queue v = []" "\<not> v_connecting v"
    using assms by (auto simp add: INV_def)
  have n: "v_next v = length (v_done v)"
    using assms d by (auto simp add: INV_def dest: arg_cong [where f = length])
  have "\<forall>h \<in> set (v_wr v). h < v_next v"
    using assms d n by (auto simp add: INV_def)
  then have "count_list (v_wr v) (v_next v) = 0" "\<forall>h \<in> set (v_wr v). h \<le> v_next v"
    by (auto simp add: count_list_fresh)
  then show ?thesis
    using assms d n
    by (auto simp add: INV_def aNext_def aPush_def aAttempt_def sorted_append)
qed

lemma INV_disconnecting:
  "INV v \<Longrightarrow> v_drains v = [Writing First item] \<Longrightarrow> INV (v\<lparr>v_drains := [Disconnecting item]\<rparr>)"
  by (auto simp add: INV_def)

lemma INV_failed_writing:
  assumes "INV v" "v_drains v = [Writing att item]"
  shows "INV (aFailed w att item v)"
proof (cases att)
  case First
  then show ?thesis using assms by (simp add: aFailed_def INV_disconnecting)
next
  case Retry
  from INV_complete [OF assms(1,2), of w] show ?thesis
    by (simp add: aFailed_def Retry)
qed

lemma INV_ensured_ok:
  assumes "INV v" "v_drains v = [EnsureConnected att item]"
  shows "INV (aAttempt True att item (v\<lparr>v_connecting := False\<rparr>))"
proof -
  have h: "handle item = length (v_done v)"
    using assms by (auto simp add: INV_def dest: upt_append_Cons)
  have "\<forall>x \<in> set (v_wr v). x \<le> handle item"
    using assms h by (auto simp add: INV_def)
  then show ?thesis
    using assms h by (cases att) (auto simp add: INV_def aAttempt_def sorted_append)
qed

lemma INV_ensured_failed:
  assumes "INV v" "v_drains v = [EnsureConnected att item]"
  shows "INV (aFailed w att item (v\<lparr>v_connecting := False\<rparr>))"
proof (cases att)
  case First
  then show ?thesis using assms by (auto simp add: aFailed_def INV_def)
next
  case Retry
  let ?v = "v\<lparr>v_connecting := False, v_drains := [Disconnecting item]\<rparr>"
  have "INV ?v" using assms Retry by (auto simp add: INV_def)
  from INV_complete [OF this, of "Disconnecting item" w]
  have "INV (aComplete w item ?v)" by simp
  moreover have "aComplete w item ?v = aComplete w item (v\<lparr>v_connecting := False\<rparr>)"
    by (cases "v_queue v") (simp_all add: aComplete_def aNext_def aAttempt_def)
  ultimately show ?thesis by (simp add: aFailed_def Retry)
qed

lemma INV_retry:
  assumes "INV v" "v_drains v = [Disconnecting item]"
  shows "INV (aAttempt w Retry item v)"
proof -
  have h: "handle item = length (v_done v)"
    using assms by (auto simp add: INV_def dest: upt_append_Cons)
  have "\<forall>x \<in> set (v_wr v). x \<le> handle item"
    using assms h by (auto simp add: INV_def)
  then show ?thesis
    using assms h by (auto simp add: INV_def aAttempt_def sorted_append)
qed

lemma enqueue_busy:
  "processing s \<Longrightarrow>
   enqueue c s =
     emit (Enqueued (nextHandle s))
       (s\<lparr>queue := queue s @ [\<lparr>command = c, handle = nextHandle s\<rparr>],
          nextHandle := Suc (nextHandle s)\<rparr>)"
  by (simp add: enqueue_def processQueue_def emit_def)

lemma view_enqueue_busy: "processing s \<Longrightarrow> view (enqueue c s) = aPush c (view s)"
  by (simp add: enqueue_busy aPush_def)

lemma view_enqueue_idle:
  assumes "\<not> processing s" "drains s = []" "connectPromise s = None"
  shows "view (enqueue c s) = aNext (up s) ((aPush c (view s))\<lparr>v_processing := True\<rparr>)"
proof -
  let ?s = "(emit (Enqueued (nextHandle s))
       (s\<lparr>queue := queue s @ [\<lparr>command = c, handle = nextHandle s\<rparr>],
          nextHandle := Suc (nextHandle s)\<rparr>))\<lparr>processing := True\<rparr>"
  have cp: "connectPromise ?s = None" using assms by simp
  have v: "view ?s = (aPush c (view s))\<lparr>v_processing := True\<rparr>"
    by (simp add: aPush_def)
  have "view (enqueue c s) = put (nextItem ?s)"
    using assms by (simp add: enqueue_def processQueue_def put_def split_beta emit_def)
  with put_nextItem [OF cp] v show ?thesis by simp
qed

lemma view_afterConnect: "view (afterConnect s) = (view s)\<lparr>v_connecting := True\<rparr>"
  by (simp add: afterConnect_def Let_def)

lemma view_finishConnect:
  assumes "drains s = [EnsureConnected att item]"
  shows "view (finishConnect ok s) =
           (if ok then aAttempt True att item ((view s)\<lparr>v_connecting := False\<rparr>)
            else aFailed (up s) att item ((view s)\<lparr>v_connecting := False\<rparr>))"
proof (cases ok)
  case True
  then show ?thesis
    using assms by (simp add: finishConnect_def ensured_def aAttempt_def)
next
  case False
  let ?s = "s\<lparr>connectPromise := None\<rparr>"
  have "connectPromise ?s = None" by simp
  from put_failed [OF this, of att item] show ?thesis
    using assms False by (simp add: finishConnect_def ensured_def split_beta put_def)
qed

lemma foldl_enqueue_busy:
  "processing s \<Longrightarrow>
   processing (foldl (\<lambda>s' c. enqueue c s') s cb)
   \<and> drains (foldl (\<lambda>s' c. enqueue c s') s cb) = drains s
   \<and> connectPromise (foldl (\<lambda>s' c. enqueue c s') s cb) = connectPromise s
   \<and> up (foldl (\<lambda>s' c. enqueue c s') s cb) = up s
   \<and> view (foldl (\<lambda>s' c. enqueue c s') s cb) = foldl (\<lambda>v c. aPush c v) (view s) cb"
proof (induction cb arbitrary: s)
  case Nil
  then show ?case by simp
next
  case (Cons c cb)
  have "processing (enqueue c s)" "drains (enqueue c s) = drains s"
    "connectPromise (enqueue c s) = connectPromise s" "up (enqueue c s) = up s"
    using Cons.prems by (simp_all add: enqueue_busy emit_def)
  with Cons.IH [of "enqueue c s"] view_enqueue_busy [OF Cons.prems, of c]
  show ?case by simp
qed

lemma INV_foldl_push:
  "INV v \<Longrightarrow> v_processing v \<Longrightarrow>
   INV (foldl (\<lambda>v c. aPush c v) v cb)
   \<and> v_drains (foldl (\<lambda>v c. aPush c v) v cb) = v_drains v"
proof (induction cb arbitrary: v)
  case Nil
  then show ?case by simp
next
  case (Cons c cb)
  have "INV (aPush c v)" "v_processing (aPush c v)" "v_drains (aPush c v) = v_drains v"
    using Cons.prems by (simp_all add: INV_push) (simp_all add: aPush_def)
  with Cons.IH [of "aPush c v"] show ?case by simp
qed

lemma INV_waiting_drain:
  assumes "INV (view s)" "connectPromise s \<noteq> None"
  obtains att item where "drains s = [EnsureConnected att item]"
proof -
  from assms obtain d where d: "d \<in> set (drains s)" "waiting d"
    by (auto simp add: INV_def)
  moreover have "length (drains s) \<le> 1" using assms by (simp add: INV_def)
  ultimately have ds: "drains s = [d]"
    by (cases "drains s") auto
  have "\<exists>att item. d = EnsureConnected att item"
    using d(2) by (cases d) simp_all
  with ds that show ?thesis by auto
qed

lemma INV_single_drain:
  assumes "INV (view s)" "k < length (drains s)"
  shows "k = 0 \<and> drains s = [drains s ! 0]"
proof -
  have "length (drains s) \<le> 1" using assms by (simp add: INV_def)
  with assms(2) show ?thesis by (cases "drains s") auto
qed

lemma INV_not_connecting:
  assumes "INV (view s)" "drains s = [d]" "\<not> waiting d"
  shows "connectPromise s = None"
  using assms by (auto simp add: INV_def)

lemma INV_step_Enqueue: "INV (view s) \<Longrightarrow> INV (view (step (Enqueue c) s))"
proof (cases "processing s")
  case True
  assume "INV (view s)"
  with True show ?thesis by (simp add: view_enqueue_busy INV_push)
next
  case False
  assume I: "INV (view s)"
  with False have "drains s = []" "connectPromise s = None"
    by (auto simp add: INV_def)
  with False I show ?thesis
    by (simp add: view_enqueue_idle INV_start)
qed

lemma INV_finishConnect:
  assumes "INV (view s)" "drains s = [EnsureConnected att item]"
  shows "INV (view (finishConnect ok s))"
  using assms INV_ensured_ok [of "view s" att item] INV_ensured_failed [of "view s" att item "up s"]
  by (simp add: view_finishConnect)

lemma INV_step_ConnectDone:
  assumes "INV (view s)"
  shows "INV (view (step (ConnectDone r) s))"
proof (cases "connectPromise s = Some Connecting")
  case False
  then show ?thesis using assms by simp
next
  case True
  with assms obtain att item where d: "drains s = [EnsureConnected att item]"
    by (auto elim: INV_waiting_drain)
  have ok: "INV (view (afterConnect (s\<lparr>client_resolvedAddress := a, client_connected := True\<rparr>)))" for a
    using assms True by (simp add: view_afterConnect) (simp add: INV_def)
  have f: "INV (view (finishConnect False s'))" if "view s' = view s" "drains s' = drains s" for s'
    using INV_finishConnect [of s' att item False] that assms d by simp
  show ?thesis
    using True ok by (cases r) (simp_all add: f)
qed

lemma INV_step_SubscribeDone:
  assumes "INV (view s)"
  shows "INV (view (step (SubscribeDone ok) s))"
proof (cases "connectPromise s = Some Subscribing")
  case False
  then show ?thesis using assms by simp
next
  case True
  with assms obtain att item where d: "drains s = [EnsureConnected att item]"
    by (auto elim: INV_waiting_drain)
  have p: "processing s" using assms d by (simp add: INV_def)
  show ?thesis
  proof (cases ok)
    case False
    from INV_finishConnect [of "s\<lparr>connected := False\<rparr>" att item False] assms d
    show ?thesis using True False by simp
  next
    case ok: True
    let ?s0 = "resetIdleTimer (s\<lparr>connected := True\<rparr>)"
    let ?s1 = "foldl (\<lambda>s' c. enqueue c s') ?s0 (onReconnectCallback s)"
    have p0: "processing ?s0" using p by (simp add: resetIdleTimer_def)
    from foldl_enqueue_busy [OF p0, of "onReconnectCallback s"]
    have s1: "drains ?s1 = drains s" "view ?s1 = foldl (\<lambda>v c. aPush c v) (view s) (onReconnectCallback s)"
      by simp_all
    from INV_foldl_push [of "view s" "onReconnectCallback s"] assms p
    have "INV (view ?s1)" using s1 by simp
    from INV_finishConnect [OF this, of att item True] s1 d
    show ?thesis using True ok by simp
  qed
qed

lemma INV_step_WriteDone:
  assumes "INV (view s)"
  shows "INV (view (step (WriteDone k ok) s))"
proof (cases "k < length (drains s)")
  case False
  then show ?thesis using assms by simp
next
  case True
  from INV_single_drain [OF assms True] have k: "k = 0" and d: "drains s = [drains s ! 0]"
    by simp_all
  show ?thesis
  proof (cases "drains s ! 0")
    case (Writing att item)
    with d have ds: "drains s = [Writing att item]" by simp
    from INV_not_connecting [OF assms ds] have cp: "connectPromise s = None" by simp
    show ?thesis
      unfolding k view_WriteDone [OF ds cp]
      using INV_complete [of "view s" "Writing att item" "up s"]
        INV_failed_writing [of "view s" att item "up s"] assms ds
      by simp
  qed (use assms True k in simp_all)
qed

lemma INV_step_DisconnectDone:
  assumes "INV (view s)"
  shows "INV (view (step (DisconnectDone k) s))"
proof (cases "k < length (drains s)")
  case False
  then show ?thesis using assms by simp
next
  case True
  from INV_single_drain [OF assms True] have k: "k = 0" and d: "drains s = [drains s ! 0]"
    by simp_all
  show ?thesis
  proof (cases "drains s ! 0")
    case (Disconnecting item)
    with d have ds: "drains s = [Disconnecting item]" by simp
    from INV_not_connecting [OF assms ds] have cp: "connectPromise s = None" by simp
    show ?thesis
      unfolding k view_DisconnectDone [OF ds cp]
      using INV_retry [of "view s" item False] assms ds
      by simp
  qed (use assms True k in simp_all)
qed

lemma INV_step: "INV (view s) \<Longrightarrow> INV (view (step e s))"
proof (cases e)
  case (Enqueue c)
  assume "INV (view s)" with Enqueue show ?thesis by (simp only: INV_step_Enqueue)
next
  case (ConnectDone r)
  assume "INV (view s)" with ConnectDone show ?thesis by (simp only: INV_step_ConnectDone)
next
  case (SubscribeDone ok)
  assume "INV (view s)" with SubscribeDone show ?thesis by (simp only: INV_step_SubscribeDone)
next
  case (WriteDone k ok)
  assume "INV (view s)" with WriteDone show ?thesis by (simp only: INV_step_WriteDone)
next
  case (DisconnectDone k)
  assume "INV (view s)" with DisconnectDone show ?thesis by (simp only: INV_step_DisconnectDone)
next
  case PeerDisconnect
  assume "INV (view s)" with PeerDisconnect show ?thesis by simp
next
  case IdleTimeout
  assume "INV (view s)" with IdleTimeout show ?thesis by simp
next
  case Notification
  assume "INV (view s)" with Notification show ?thesis by simp
qed

lemma INV_run: "INV (view s) \<Longrightarrow> INV (view (run es s))"
  by (induction es arbitrary: s) (simp_all add: INV_step)

lemma INV_newManager: "INV (view (newManager addr cb))"
  by (simp add: INV_def view_def newManager_def)

lemma INV_reachable: "INV (view (run es (newManager addr cb)))"
  by (rule INV_run) (rule INV_newManager)

lemma callbackItems_Cons:
  "callbackItems n (c # cb) = \<lparr>command = c, handle = n\<rparr> # callbackItems (Suc n) cb"
proof -
  have "[n..<n + length (c # cb)] = n # [Suc n..<Suc n + length cb]"
    by (simp add: upt_conv_Cons del: upt_Suc)
  then show ?thesis
    by (simp only: callbackItems_def zip_Cons_Cons list.map prod.case)
qed

lemma enqueued_map_Enqueued: "map Enqueued (n # ns) = Enqueued n # map Enqueued ns"
  by simp

lemma foldl_enqueue_eq:
  "processing s \<Longrightarrow>
   foldl (\<lambda>s' c. enqueue c s') s cb =
     s\<lparr>queue := queue s @ callbackItems (nextHandle s) cb,
       nextHandle := nextHandle s + length cb,
       trace := trace s @ map Enqueued [nextHandle s..<nextHandle s + length cb]\<rparr>"
proof (induction cb arbitrary: s)
  case Nil
  then show ?case by (simp add: callbackItems_def)
next
  case (Cons c cb)
  have p: "processing (enqueue c s)"
    using Cons.prems by (simp add: enqueue_busy emit_def)
  have u: "[nextHandle s..<nextHandle s + length (c # cb)]
             = nextHandle s # [Suc (nextHandle s)..<Suc (nextHandle s) + length cb]"
    by (simp add: upt_conv_Cons del: upt_Suc)
  have "foldl (\<lambda>s' c. enqueue c s') s (c # cb) = foldl (\<lambda>s' c. enqueue c s') (enqueue c s) cb"
    by simp
  also have "\<dots> = (enqueue c s)\<lparr>queue := queue (enqueue c s) @ callbackItems (nextHandle (enqueue c s)) cb,
       nextHandle := nextHandle (enqueue c s) + length cb,
       trace := trace (enqueue c s) @
         map Enqueued [nextHandle (enqueue c s)..<nextHandle (enqueue c s) + length cb]\<rparr>"
    by (rule Cons.IH [OF p])
  also have "\<dots> = s\<lparr>queue := queue s @ callbackItems (nextHandle s) (c # cb),
       nextHandle := nextHandle s + length (c # cb),
       trace := trace s @ map Enqueued [nextHandle s..<nextHandle s + length (c # cb)]\<rparr>"
    unfolding u callbackItems_Cons
    using Cons.prems by (simp add: enqueue_busy emit_def del: upt_Suc)
  finally show ?case .
qed



lemma step_connect_ok:
  assumes "connectPromise s = Some Connecting"
  shows "step (ConnectDone (ConnectOk a)) s =
           s\<lparr>client_resolvedAddress := a, client_connected := True,
             resolvedAddress := (if address s = [] \<and> a \<noteq> [] then a else resolvedAddress s),
             trace := trace s @ [Subscribe],
             connectPromise := Some Subscribing\<rparr>"
  using assms by (simp add: afterConnect_def emit_def Let_def)

lemma step_subscribed:
  assumes "connectPromise s = Some Subscribing" "drains s = [EnsureConnected att item]"
    "processing s"
  shows "step (SubscribeDone True) s =
           s\<lparr>connected := True, idleTimer := True,
             queue := queue s @ callbackItems (nextHandle s) (onReconnectCallback s),
             nextHandle := nextHandle s + length (onReconnectCallback s),
             trace := trace s
               @ map Enqueued [nextHandle s..<nextHandle s + length (onReconnectCallback s)]
               @ [Write item],
             connectPromise := None,
             drains := [Writing att item]\<rparr>"
proof -
  have p: "processing (s\<lparr>connected := True, idleTimer := True\<rparr>)"
    using assms by simp
  show ?thesis
    using assms
    by (simp add: foldl_enqueue_eq [OF p] finishConnect_def ensured_def emit_def resetIdleTimer_def)
qed


lemma distinct_remdups_adj_sorted:
  "sorted (xs::nat list) \<Longrightarrow> distinct (remdups_adj xs)"
  by (induction xs rule: remdups_adj.induct) auto

lemma subseq_sorted_upt:
  assumes "sorted xs" "\<forall>x \<in> set xs. x < (n::nat)"
  shows "subseq (remdups_adj xs) [0..<n]"
proof -
  have "remdups_adj xs = filter (\<lambda>x. x \<in> set xs) [0..<n]"
  proof (rule sorted_distinct_set_unique)
    show "sorted (remdups_adj xs)" using assms by simp
    show "distinct (remdups_adj xs)" using assms(1) by (rule distinct_remdups_adj_sorted)
    show "sorted (filter (\<lambda>x. x \<in> set xs) [0..<n])" by (rule sorted_wrt_filter) simp
    show "distinct (filter (\<lambda>x. x \<in> set xs) [0..<n])" by simp
    show "set (remdups_adj xs) = set (filter (\<lambda>x. x \<in> set xs) [0..<n])"
      using assms(2) by auto
  qed
  then show ?thesis by simp
qed

lemma INV_bounds:
  assumes "INV v"
  shows "\<forall>h \<in> set (v_wr v). h < v_next v"
proof -
  have "length (v_done v @ map handle (map drainItem (v_drains v) @ v_queue v)) = length [0..<v_next v]"
    using assms by (simp add: INV_def)
  then have "length (v_done v) + length (v_drains v) \<le> v_next v" by simp
  then show ?thesis using assms by (fastforce simp add: INV_def)
qed

lemma run_append: "run (es @ fs) s = run fs (run es s)"
  by (induction es arbitrary: s) simp_all

lemma callbackItems_Nil [simp]: "callbackItems n [] = []"
  by (simp add: callbackItems_def)

lemma callbackItems_append:
  "callbackItems n (xs @ ys) = callbackItems n xs @ callbackItems (n + length xs) ys"
  by (induction xs arbitrary: n) (simp_all add: callbackItems_Cons)

lemma length_callbackItems [simp]: "length (callbackItems n cb) = length cb"
  by (induction cb arbitrary: n) (simp_all add: callbackItems_Cons)

lemma run_map_Enqueue: "run (map Enqueue cs) s = foldl (\<lambda>s' c. enqueue c s') s cs"
  by (induction cs arbitrary: s) simp_all

lemma step_first_enqueue:
  "step (Enqueue c) (newManager addr cb) =
     (newManager addr cb)
       \<lparr>queue := [], processing := True,
        connectPromise := Some Connecting,
        drains := [EnsureConnected First \<lparr>command = c, handle = 0\<rparr>],
        nextHandle := Suc 0,
        trace := [Enqueued 0, Connect (if addr = [] then None else Some addr),
                  Scan (if addr = [] then None else Some addr)]\<rparr>"
  by (simp add: newManager_def enqueue_def processQueue_def nextItem_def attemptItem_def
      ensureConnected_def doConnect_def emit_def Let_def)

lemma step_write_ok:
  assumes "drains s = [Writing att item]" "connectPromise s = None" "connected s"
    "client_connected s"
  shows "step (WriteDone 0 True) s =
           (case queue s of
              [] \<Rightarrow> s\<lparr>idleTimer := True, trace := trace s @ [Resolve (handle item)],
                       processing := False, drains := []\<rparr>
            | n # rest \<Rightarrow>
                s\<lparr>idleTimer := True, trace := trace s @ [Resolve (handle item), Write n],
                  queue := rest, drains := [Writing First n]\<rparr>)"
  using assms
  by (cases "queue s")
     (simp_all add: resumeAt_def nextItem_def attemptItem_def ensureConnected_def emit_def
        resetIdleTimer_def)

lemma run_writes_ok:
  assumes "queue s = q" "drains s = [Writing att item]" "connectPromise s = None"
    "connected s" "client_connected s"
  shows "trace (run (replicate (Suc (length q)) (WriteDone 0 True)) s)
           = trace s @ Resolve (handle item)
               # concat (map (\<lambda>n. [Write n, Resolve (handle n)]) q)
         \<and> drains (run (replicate (Suc (length q)) (WriteDone 0 True)) s) = []
         \<and> queue (run (replicate (Suc (length q)) (WriteDone 0 True)) s) = []
         \<and> processing (run (replicate (Suc (length q)) (WriteDone 0 True)) s) = False"
  using assms
proof (induction q arbitrary: s att item)
  case Nil
  from step_write_ok [OF Nil(2-5)] Nil(1)
  have "step (WriteDone 0 True) s = s\<lparr>idleTimer := True, trace := trace s @ [Resolve (handle item)],
                       processing := False, drains := []\<rparr>"
    by simp
  then show ?case using Nil(1) by simp
next
  case (Cons n rest)
  define s1 where "s1 = s\<lparr>idleTimer := True, trace := trace s @ [Resolve (handle item), Write n],
                  queue := rest, drains := [Writing First n]\<rparr>"
  from step_write_ok [OF Cons(3-6)] Cons(2)
  have 1: "step (WriteDone 0 True) s = s1"
    by (simp add: s1_def)
  have p: "queue s1 = rest" "drains s1 = [Writing First n]" "connectPromise s1 = None"
    "connected s1" "client_connected s1"
    using Cons(4-6) by (simp_all add: s1_def)
  have t: "trace s1 = trace s @ [Resolve (handle item), Write n]"
    by (simp add: s1_def)
  have r: "run (replicate (Suc (length (n # rest))) (WriteDone 0 True)) s
             = run (replicate (Suc (length rest)) (WriteDone 0 True)) s1"
    by (simp only: length_Cons replicate_Suc run.simps 1)
  from Cons.IH [OF p] show ?case
    unfolding r by (simp add: t)
qed

lemma fifo_progress:
  "trace (run (map Enqueue (c # cs) @ [ConnectDone (ConnectOk a), SubscribeDone True]
                @ replicate (length (c # cs) + length cb) (WriteDone 0 True))
            (newManager addr cb))
     = [Enqueued 0, Connect (if addr = [] then None else Some addr),
        Scan (if addr = [] then None else Some addr)]
       @ map Enqueued [1..<Suc (length cs)] @ [Subscribe]
       @ map Enqueued [Suc (length cs)..<Suc (length cs) + length cb]
       @ concat (map (\<lambda>q. [Write q, Resolve (handle q)]) (callbackItems 0 (c # cs @ cb)))
   \<and> drains (run (map Enqueue (c # cs) @ [ConnectDone (ConnectOk a), SubscribeDone True]
                @ replicate (length (c # cs) + length cb) (WriteDone 0 True))
            (newManager addr cb)) = []
   \<and> queue (run (map Enqueue (c # cs) @ [ConnectDone (ConnectOk a), SubscribeDone True]
                @ replicate (length (c # cs) + length cb) (WriteDone 0 True))
            (newManager addr cb)) = []
   \<and> processing (run (map Enqueue (c # cs) @ [ConnectDone (ConnectOk a), SubscribeDone True]
                @ replicate (length (c # cs) + length cb) (WriteDone 0 True))
            (newManager addr cb)) = False"
proof -
  let ?tgt = "if addr = [] then None else Some addr"
  let ?item = "\<lparr>command = c, handle = 0\<rparr>"
  define s1 where "s1 = step (Enqueue c) (newManager addr cb)"
  have s1: "queue s1 = []" "processing s1" "connectPromise s1 = Some Connecting"
    "drains s1 = [EnsureConnected First ?item]" "nextHandle s1 = Suc 0"
    "trace s1 = [Enqueued 0, Connect ?tgt, Scan ?tgt]" "onReconnectCallback s1 = cb"
    unfolding s1_def step_first_enqueue by (simp_all add: newManager_def)
  define s2 where "s2 = run (map Enqueue cs) s1"
  have s2e: "s2 = s1\<lparr>queue := queue s1 @ callbackItems (nextHandle s1) cs,
       nextHandle := nextHandle s1 + length cs,
       trace := trace s1 @ map Enqueued [nextHandle s1..<nextHandle s1 + length cs]\<rparr>"
    unfolding s2_def run_map_Enqueue by (rule foldl_enqueue_eq) (rule s1)
  have s2: "queue s2 = callbackItems 1 cs" "processing s2" "connectPromise s2 = Some Connecting"
    "drains s2 = [EnsureConnected First ?item]" "nextHandle s2 = Suc (length cs)"
    "trace s2 = [Enqueued 0, Connect ?tgt, Scan ?tgt] @ map Enqueued [1..<Suc (length cs)]"
    "onReconnectCallback s2 = cb"
    unfolding s2e using s1 by simp_all
  define s3 where "s3 = step (ConnectDone (ConnectOk a)) s2"
  have s3: "queue s3 = callbackItems 1 cs" "processing s3" "connectPromise s3 = Some Subscribing"
    "drains s3 = [EnsureConnected First ?item]" "nextHandle s3 = Suc (length cs)"
    "trace s3 = [Enqueued 0, Connect ?tgt, Scan ?tgt] @ map Enqueued [1..<Suc (length cs)]
                  @ [Subscribe]"
    "onReconnectCallback s3 = cb" "client_connected s3"
    unfolding s3_def step_connect_ok [OF s2(3)] using s2 by simp_all
  define s4 where "s4 = step (SubscribeDone True) s3"
  have s4: "queue s4 = callbackItems 1 cs @ callbackItems (Suc (length cs)) cb"
    "connectPromise s4 = None" "drains s4 = [Writing First ?item]"
    "trace s4 = [Enqueued 0, Connect ?tgt, Scan ?tgt] @ map Enqueued [1..<Suc (length cs)]
                  @ [Subscribe] @ map Enqueued [Suc (length cs)..<Suc (length cs) + length cb]
                  @ [Write ?item]"
    "connected s4" "client_connected s4"
    unfolding s4_def step_subscribed [OF s3(3) s3(4) s3(2)] using s3 by simp_all
  have len: "length (c # cs) + length cb = Suc (length (queue s4))"
    by (simp add: s4)
  have r: "run (map Enqueue (c # cs) @ [ConnectDone (ConnectOk a), SubscribeDone True]
                @ replicate (length (c # cs) + length cb) (WriteDone 0 True))
            (newManager addr cb)
        = run (replicate (Suc (length (queue s4))) (WriteDone 0 True)) s4"
    unfolding len
    by (simp only: run_append list.map run.simps s1_def [symmetric] s2_def [symmetric]
        s3_def [symmetric] s4_def [symmetric])
  have items: "callbackItems 0 (c # cs @ cb) = ?item # queue s4"
    using callbackItems_append [of 1 cs cb] by (simp add: callbackItems_Cons s4)
  from run_writes_ok [OF refl s4(3) s4(2) s4(5) s4(6)]
  show ?thesis
    unfolding r items by (simp add: s4)
qed

lemma pendingWrite_append [simp]:
  "pendingWrite w (t @ u) = pendingWrite (pendingWrite w t) u"
  by (induction w t rule: pendingWrite.induct) simp_all

lemma resolvesPendingWrite_append [simp]:
  "resolvesPendingWrite w (t @ u)
     \<longleftrightarrow> resolvesPendingWrite w t \<and> resolvesPendingWrite (pendingWrite w t) u"
  by (induction w t rule: resolvesPendingWrite.induct) auto

lemma pendingWrite_Enqueued [simp]: "pendingWrite w (map Enqueued ns) = w"
  by (induction ns) simp_all

lemma resolvesPendingWrite_Enqueued [simp]: "resolvesPendingWrite w (map Enqueued ns)"
  by (induction ns) simp_all

lemma RES_attemptItem:
  assumes "resolvesPendingWrite None (trace s)"
  shows "RES [fst (attemptItem att item s)] (trace (snd (attemptItem att item s)))"
  using assms
  by (simp add: RES_def attemptItem_def ensureConnected_def doConnect_def afterConnect_def
      emit_def resetIdleTimer_def Let_def)

lemma RES_nextItem:
  assumes "resolvesPendingWrite None (trace s)"
  shows "RES (optList (fst (nextItem s))) (trace (snd (nextItem s)))"
proof (cases "queue s")
  case Nil
  then show ?thesis using assms by (simp add: nextItem_def RES_def optList_def)
next
  case (Cons item rest)
  have "resolvesPendingWrite None (trace (s\<lparr>queue := rest\<rparr>))" using assms by simp
  from RES_attemptItem [OF this, of First item] show ?thesis
    by (simp add: nextItem_def Cons split_beta optList_def)
qed

lemma RES_failed:
  assumes "resolvesPendingWrite None (trace s)"
  shows "RES (optList (fst (failed att item s))) (trace (snd (failed att item s)))"
proof (cases att)
  case First
  then show ?thesis using assms by (simp add: failed_def RES_def optList_def emit_def)
next
  case Retry
  have "resolvesPendingWrite None (trace (emit (Reject (handle item)) s))"
    using assms by (simp add: emit_def)
  from RES_nextItem [OF this] show ?thesis by (simp add: failed_def Retry)
qed

lemma RES_ensured:
  assumes "resolvesPendingWrite None (trace s)"
  shows "RES (optList (fst (ensured ok att item s))) (trace (snd (ensured ok att item s)))"
proof (cases ok)
  case True
  then show ?thesis using assms by (simp add: ensured_def RES_def optList_def emit_def)
next
  case False
  with RES_failed [OF assms, of att item] show ?thesis by (simp add: ensured_def)
qed

lemma resumeAt_0:
  "drains (snd r) = [d] \<Longrightarrow>
   drains (resumeAt 0 r) = optList (fst r) \<and> trace (resumeAt 0 r) = trace (snd r)"
  by (simp add: resumeAt_def split_beta optList_def)

lemma finishConnect_single:
  assumes "drains s = [EnsureConnected att item]"
  shows "drains (finishConnect ok s) = optList (fst (ensured ok att item (s\<lparr>connectPromise := None\<rparr>)))
    \<and> trace (finishConnect ok s) = trace (snd (ensured ok att item (s\<lparr>connectPromise := None\<rparr>)))"
  using assms by (simp add: finishConnect_def split_beta optList_def)

lemma RES_finishConnect:
  assumes "drains s = [EnsureConnected att item]" "resolvesPendingWrite None (trace s)"
  shows "RES (drains (finishConnect ok s)) (trace (finishConnect ok s))"
proof -
  have "resolvesPendingWrite None (trace (s\<lparr>connectPromise := None\<rparr>))"
    using assms by simp
  from RES_ensured [OF this, of ok att item] show ?thesis
    by (simp add: finishConnect_single [OF assms(1)])
qed

lemma RES_step_Enqueue:
  assumes "INV (view s)" "RES (drains s) (trace s)"
  shows "RES (drains (step (Enqueue c) s)) (trace (step (Enqueue c) s))"
proof (cases "processing s")
  case True
  then show ?thesis using assms(2) by (simp add: enqueue_busy emit_def RES_def)
next
  case False
  with assms(1) have d: "drains s = []" by (auto simp add: INV_def)
  let ?s = "(emit (Enqueued (nextHandle s))
       (s\<lparr>queue := queue s @ [\<lparr>command = c, handle = nextHandle s\<rparr>],
          nextHandle := Suc (nextHandle s)\<rparr>))\<lparr>processing := True\<rparr>"
  have "resolvesPendingWrite None (trace ?s)"
    using assms(2) by (simp add: RES_def emit_def)
  from RES_nextItem [OF this] show ?thesis
    using False d by (simp add: enqueue_def processQueue_def split_beta optList_def emit_def)
qed

lemma RES_step_ConnectDone:
  assumes "INV (view s)" "RES (drains s) (trace s)"
  shows "RES (drains (step (ConnectDone r) s)) (trace (step (ConnectDone r) s))"
proof (cases "connectPromise s = Some Connecting")
  case False
  then show ?thesis using assms by simp
next
  case True
  with assms obtain att item where d: "drains s = [EnsureConnected att item]"
    by (auto elim: INV_waiting_drain)
  have t: "resolvesPendingWrite None (trace s)" using assms(2) by (simp add: RES_def)
  have f: "RES (drains (finishConnect False s')) (trace (finishConnect False s'))"
    if "drains s' = drains s" "trace s' = trace s" for s'
    using RES_finishConnect [of s' att item False] that d t by simp
  have ok: "RES (drains (afterConnect s')) (trace (afterConnect s'))"
    if "drains s' = drains s" "trace s' = trace s" for s'
    using that d t by (simp add: afterConnect_def emit_def Let_def RES_def)
  show ?thesis
    using True by (cases r) (simp_all add: f ok)
qed

lemma RES_step_SubscribeDone:
  assumes "INV (view s)" "RES (drains s) (trace s)"
  shows "RES (drains (step (SubscribeDone ok) s)) (trace (step (SubscribeDone ok) s))"
proof (cases "connectPromise s = Some Subscribing")
  case False
  then show ?thesis using assms by simp
next
  case True
  with assms obtain att item where d: "drains s = [EnsureConnected att item]"
    by (auto elim: INV_waiting_drain)
  have p: "processing s" using assms(1) d by (simp add: INV_def)
  have t: "resolvesPendingWrite None (trace s)" using assms(2) by (simp add: RES_def)
  show ?thesis
  proof (cases ok)
    case False
    from RES_finishConnect [of "s\<lparr>connected := False\<rparr>" att item False] d t
    show ?thesis using True False by simp
  next
    case ok: True
    let ?s0 = "s\<lparr>connected := True, idleTimer := True\<rparr>"
    let ?s1 = "foldl (\<lambda>s' c. enqueue c s') ?s0 (onReconnectCallback s)"
    have p0: "processing ?s0" using p by simp
    note e = foldl_enqueue_eq [OF p0, of "onReconnectCallback s"]
    have d1: "drains ?s1 = [EnsureConnected att item]" unfolding e using d by simp
    have t1: "resolvesPendingWrite None (trace ?s1)" unfolding e using t by simp
    from RES_finishConnect [OF d1 t1, of True]
    show ?thesis using True ok by (simp add: resetIdleTimer_def)
  qed
qed

lemma RES_step_WriteDone:
  assumes "INV (view s)" "RES (drains s) (trace s)"
  shows "RES (drains (step (WriteDone k ok) s)) (trace (step (WriteDone k ok) s))"
proof (cases "k < length (drains s)")
  case False
  then show ?thesis using assms by simp
next
  case True
  from INV_single_drain [OF assms(1) True] have k: "k = 0" and d: "drains s = [drains s ! 0]"
    by simp_all
  show ?thesis
  proof (cases "drains s ! 0")
    case (Writing att item)
    with d have ds: "drains s = [Writing att item]" by simp
    have t: "resolvesPendingWrite None (trace s)"
      and pw: "pendingWrite None (trace s) = Some (handle item)"
      using assms(2) ds by (simp_all add: RES_def)
    show ?thesis
    proof (cases ok)
      case ok: True
      let ?s = "emit (Resolve (handle item)) (resetIdleTimer s)"
      have "resolvesPendingWrite None (trace ?s)"
        using t pw by (simp add: emit_def resetIdleTimer_def)
      from RES_nextItem [OF this] resumeAt_0 [of "nextItem ?s" "Writing att item"]
      show ?thesis using ds k ok by simp
    next
      case False
      from RES_failed [OF t, of att item] resumeAt_0 [of "failed att item s" "Writing att item"]
      show ?thesis using ds k False by simp
    qed
  qed (use assms True k in simp_all)
qed

lemma RES_step_DisconnectDone:
  assumes "INV (view s)" "RES (drains s) (trace s)"
  shows "RES (drains (step (DisconnectDone k) s)) (trace (step (DisconnectDone k) s))"
proof (cases "k < length (drains s)")
  case False
  then show ?thesis using assms by simp
next
  case True
  from INV_single_drain [OF assms(1) True] have k: "k = 0" and d: "drains s = [drains s ! 0]"
    by simp_all
  show ?thesis
  proof (cases "drains s ! 0")
    case (Disconnecting item)
    with d have ds: "drains s = [Disconnecting item]" by simp
    let ?s = "s\<lparr>client_connected := False\<rparr>"
    have t: "resolvesPendingWrite None (trace ?s)"
      using assms(2) by (simp add: RES_def)
    from RES_attemptItem [OF t, of Retry item]
      resumeAt_0 [of "(Some (fst (attemptItem Retry item ?s)), snd (attemptItem Retry item ?s))"
        "Disconnecting item"]
    show ?thesis using ds k by (simp add: split_beta optList_def)
  qed (use assms True k in simp_all)
qed

lemma RES_step:
  assumes "INV (view s)" "RES (drains s) (trace s)"
  shows "RES (drains (step e s)) (trace (step e s))"
proof (cases e)
  case (Enqueue c)
  with assms show ?thesis by (simp only: RES_step_Enqueue)
next
  case (ConnectDone r)
  with assms show ?thesis by (simp only: RES_step_ConnectDone)
next
  case (SubscribeDone ok)
  with assms show ?thesis by (simp only: RES_step_SubscribeDone)
next
  case (WriteDone k ok)
  with assms show ?thesis by (simp only: RES_step_WriteDone)
next
  case (DisconnectDone k)
  with assms show ?thesis by (simp only: RES_step_DisconnectDone)
next
  case PeerDisconnect
  with assms(2) show ?thesis by simp
next
  case IdleTimeout
  with assms(2) show ?thesis by (simp add: emit_def clearIdleTimer_def RES_def)
next
  case Notification
  with assms(2) show ?thesis by (simp add: resetIdleTimer_def)
qed

lemma RES_run:
  "INV (view s) \<Longrightarrow> RES (drains s) (trace s) \<Longrightarrow> RES (drains (run es s)) (trace (run es s))"
  by (induction es arbitrary: s) (simp_all add: INV_step RES_step)

lemma RES_reachable:
  "RES (drains (run es (newManager addr cb))) (trace (run es (newManager addr cb)))"
  by (rule RES_run) (simp_all add: INV_newManager, simp add: RES_def newManager_def)

text \<open>
  C4. In every state the supervisor can reach (any sequence of events from a new manager):
  at most one \<open>processQueue\<close> loop exists, and one exists exactly when \<open>processing\<close> is
  set, so at most one write awaits its completion; the handles enqueued are distinct; the
  handles written, with the repetition of a retry removed, are a subsequence of the handles
  in enqueue order; the handles completed (resolved or rejected) are a prefix of them; and
  every handle resolved is that of the most recent write, not resolved before. And the
  commands are written: when commands \<open>c # cs\<close> are enqueued on a new manager, the connection
  and the subscription succeed, and every write succeeds, the manager connects once, and
  writes the commands in the order they were enqueued, then those the reconnect callback
  enqueued, each write followed by the resolution of its own handle before the next write;
  the loop then ends with the queue empty and \<open>processing\<close> cleared.
\<close>

theorem queue_fifo_single_flight:
  "length (drains (run es (newManager addr cb))) \<le> 1
   \<and> (processing (run es (newManager addr cb)) \<longleftrightarrow> drains (run es (newManager addr cb)) \<noteq> [])
   \<and> distinct (enqueued (trace (run es (newManager addr cb))))
   \<and> subseq (remdups_adj (written (trace (run es (newManager addr cb)))))
        (enqueued (trace (run es (newManager addr cb))))
   \<and> prefix (completed (trace (run es (newManager addr cb))))
        (enqueued (trace (run es (newManager addr cb))))
   \<and> resolvesPendingWrite None (trace (run es (newManager addr cb)))
   \<and> trace (run (map Enqueue (c # cs) @ [ConnectDone (ConnectOk a), SubscribeDone True]
                @ replicate (length (c # cs) + length cb) (WriteDone 0 True))
            (newManager addr cb))
     = [Enqueued 0, Connect (if addr = [] then None else Some addr),
        Scan (if addr = [] then None else Some addr)]
       @ map Enqueued [1..<Suc (length cs)] @ [Subscribe]
       @ map Enqueued [Suc (length cs)..<Suc (length cs) + length cb]
       @ concat (map (\<lambda>q. [Write q, Resolve (handle q)]) (callbackItems 0 (c # cs @ cb)))
   \<and> drains (run (map Enqueue (c # cs) @ [ConnectDone (ConnectOk a), SubscribeDone True]
                @ replicate (length (c # cs) + length cb) (WriteDone 0 True))
            (newManager addr cb)) = []
   \<and> queue (run (map Enqueue (c # cs) @ [ConnectDone (ConnectOk a), SubscribeDone True]
                @ replicate (length (c # cs) + length cb) (WriteDone 0 True))
            (newManager addr cb)) = []
   \<and> processing (run (map Enqueue (c # cs) @ [ConnectDone (ConnectOk a), SubscribeDone True]
                @ replicate (length (c # cs) + length cb) (WriteDone 0 True))
            (newManager addr cb)) = False"
proof -
  let ?s = "run es (newManager addr cb)"
  have I: "INV (view ?s)" by (rule INV_reachable)
  then have a: "length (drains ?s) \<le> 1" "processing ?s \<longleftrightarrow> drains ?s \<noteq> []"
    by (simp_all add: INV_def)
  have e: "enqueued (trace ?s) = [0..<nextHandle ?s]"
    using I by (simp add: INV_def view_def)
  then have dist: "distinct (enqueued (trace ?s))" by simp
  have "completed (trace ?s) @ map handle (map drainItem (drains ?s) @ queue ?s) = enqueued (trace ?s)"
    using I by (simp add: INV_def view_def)
  then have p: "prefix (completed (trace ?s)) (enqueued (trace ?s))"
    by (simp add: prefix_def) metis
  have "sorted (written (trace ?s))" "\<forall>h \<in> set (written (trace ?s)). h < nextHandle ?s"
    using I INV_bounds [OF I] by (simp_all add: INV_def view_def)
  then have w: "subseq (remdups_adj (written (trace ?s))) (enqueued (trace ?s))"
    unfolding e by (rule subseq_sorted_upt)
  have r: "resolvesPendingWrite None (trace ?s)"
    using RES_reachable [of es addr cb] by (simp add: RES_def)
  note g = fifo_progress [of c cs a cb addr]
  show ?thesis
    by (intro conjI)
       (rule a dist w p r g [THEN conjunct1] g [THEN conjunct2, THEN conjunct1]
          g [THEN conjunct2, THEN conjunct2, THEN conjunct1]
          g [THEN conjunct2, THEN conjunct2, THEN conjunct2])+
qed

text \<open>
  Three commands enqueued while disconnected: one connection attempt, and the writes in the
  order of the calls, each resolved before the next.
\<close>

theorem queue_fifo_single_flight_witness:
  "trace (run [Enqueue (setVolume 5), Enqueue (setMute True), Enqueue (setPower True),
               ConnectDone (ConnectOk ''c4:5e''), SubscribeDone True,
               WriteDone 0 True, WriteDone 0 True, WriteDone 0 True]
            (newManager [] []))
     = [Enqueued 0, Connect None, Scan None, Enqueued 1, Enqueued 2, Subscribe,
        Write \<lparr>command = setVolume 5, handle = 0\<rparr>, Resolve 0,
        Write \<lparr>command = setMute True, handle = 1\<rparr>, Resolve 1,
        Write \<lparr>command = setPower True, handle = 2\<rparr>, Resolve 2]"
proof -
  have l: "map Enqueue [setVolume 5, setMute True, setPower True]
             @ [ConnectDone (ConnectOk ''c4:5e''), SubscribeDone True]
             @ replicate (length [setVolume 5, setMute True, setPower True] + length ([]::BleCommand list))
                 (WriteDone 0 True)
           = [Enqueue (setVolume 5), Enqueue (setMute True), Enqueue (setPower True),
               ConnectDone (ConnectOk ''c4:5e''), SubscribeDone True,
               WriteDone 0 True, WriteDone 0 True, WriteDone 0 True]"
    by (simp add: numeral_3_eq_3)
  have i: "callbackItems 0 (setVolume 5 # [setMute True, setPower True] @ [])
             = [\<lparr>command = setVolume 5, handle = 0\<rparr>, \<lparr>command = setMute True, handle = 1\<rparr>,
                \<lparr>command = setPower True, handle = 2\<rparr>]"
    by (simp add: callbackItems_Cons)
  have u: "map Enqueued [1..<Suc (length [setMute True, setPower True])] = [Enqueued 1, Enqueued 2]"
    by (simp add: upt_conv_Cons)
  from queue_fifo_single_flight [of _ "[]" "[]" "setVolume 5" "[setMute True, setPower True]" "''c4:5e''",
      THEN conjunct2, THEN conjunct2, THEN conjunct2, THEN conjunct2, THEN conjunct2,
      THEN conjunct2, THEN conjunct1]
  show ?thesis
    unfolding l i u by simp
qed



lemmas mgr_defs = newManager_def enqueue_def processQueue_def nextItem_def attemptItem_def ensureConnected_def
  doConnect_def afterConnect_def emit_def resetIdleTimer_def clearIdleTimer_def finishConnect_def
  ensured_def failed_def resumeAt_def Let_def

text \<open>
  C2. The claim: with no address configured, the address resolved on the first connection
  is the connect target of every reconnect, so a scan for any device happens at most once.
  With no address configured, a command is enqueued, the connection resolves \<open>c4:5e\<close>, the
  command is written, the idle timer disconnects, and a second command is enqueued: the
  reconnect calls \<open>client.connect\<close> with no address and the client scans for any device a
  second time, although \<open>resolvedAddress\<close> holds \<open>c4:5e\<close>.
\<close>

theorem reconnect_scans_again:
  "trace (run [Enqueue requestDeviceInfo, ConnectDone (ConnectOk ''c4:5e''), SubscribeDone True,
               WriteDone 0 True, IdleTimeout, PeerDisconnect, Enqueue requestVersionInfo]
            (newManager [] []))
     = [Enqueued 0, Connect None, Scan None, Subscribe,
        Write \<lparr>command = requestDeviceInfo, handle = 0\<rparr>, Resolve 0, Disconnect,
        Enqueued 1, Connect None, Scan None]
   \<and> resolvedAddress
       (run [Enqueue requestDeviceInfo, ConnectDone (ConnectOk ''c4:5e''), SubscribeDone True,
             WriteDone 0 True, IdleTimeout, PeerDisconnect, Enqueue requestVersionInfo]
          (newManager [] [])) = ''c4:5e''
   \<and> scans (trace
       (run [Enqueue requestDeviceInfo, ConnectDone (ConnectOk ''c4:5e''), SubscribeDone True,
             WriteDone 0 True, IdleTimeout, PeerDisconnect, Enqueue requestVersionInfo]
          (newManager [] []))) = [None, None]"
  by code_simp


end
